theory Spec2Isabelle
  imports Complex_Main
begin

section \<open>Errors and floating-point values\<close>

text \<open>
  The exceptions the Python code can raise, as values. \<open>ValueError\<close> carries the
  offending text (the lowercased mode for an unknown mode, a short tag for a math domain
  error); \<open>GeometryError\<close> is the exception of the geometry library on an empty
  geometry; \<open>ExternalError\<close> is any exception raised by an external collaborator (the
  OpenStreetMap download, the routing library).
\<close>

datatype error =
    ValueError string
  | AttributeError
  | IndexError
  | GeometryError
  | ExternalError string

definition bindE :: "error + 'a \<Rightarrow> ('a \<Rightarrow> error + 'b) \<Rightarrow> error + 'b" where
  "bindE m f = (case m of Inl e \<Rightarrow> Inl e | Inr a \<Rightarrow> f a)"

fun mapE :: "('a \<Rightarrow> error + 'b) \<Rightarrow> 'a list \<Rightarrow> error + 'b list" where
  "mapE f [] = Inr []"
| "mapE f (x # xs) = bindE (f x) (\<lambda>y. bindE (mapE f xs) (\<lambda>ys. Inr (y # ys)))"

text \<open>
  A Python float: a finite value, an infinity or NaN. A finite float is the real number
  it denotes. Every floating-point operation returns the rounding of its exact result:
  the rounding is a parameter \<open>rnd\<close> of each operation, so that a sum, a product or a
  sine of finite floats is \<open>rnd\<close> of the real sum, product or sine, and a result can
  fall on either side of the exact one. For the functions of the \<open>math\<close> module this
  idealises the library, whose result may differ from the rounded exact result in the
  last place. Overflow to an infinity, underflow and signed zeros are not modelled. The
  special values follow IEEE 754 and the \<open>math\<close> module: NaN propagates, \<open>inf - inf\<close>
  and \<open>0 * inf\<close> are NaN, \<open>math.sin\<close> and \<open>math.cos\<close> of an infinity and
  \<open>math.sqrt\<close> of a negative number raise ValueError.
\<close>

datatype pyfloat = Fin real | PInf | NInf | NaN

type_synonym rounding = "real \<Rightarrow> real"

text \<open>
  Rounding to the nearest binary64 number, ties to even: 53 significant bits, the
  exponent range taken as unbounded.
\<close>

definition round_even :: "real \<Rightarrow> int" where
  "round_even y =
     (let f = \<lfloor>y\<rfloor>; r = y - of_int f
      in if r < 1 / 2 then f
         else if 1 / 2 < r then f + 1
         else if even f then f
         else f + 1)"

definition round64 :: rounding where
  "round64 x =
     (if x = 0 then 0
      else let u = 2 powr (of_int \<lfloor>log 2 \<bar>x\<bar>\<rfloor> - 52)
           in u * of_int (round_even (x / u)))"

text \<open>
  What the proofs below use of a rounding: 0 and 1 are floats, and for magnitudes between
  \<open>1 / 2 ^ 100\<close> and \<open>2 ^ 100\<close> (well inside the normal range of binary64) the
  relative error of a rounding is at most \<open>1 / 2 ^ 53\<close>.
\<close>

definition ieee_like :: "rounding \<Rightarrow> bool" where
  "ieee_like rnd =
     (rnd 0 = 0 \<and> rnd 1 = 1 \<and>
      (\<forall>x. 1 / 2 ^ 100 \<le> \<bar>x\<bar> \<and> \<bar>x\<bar> \<le> 2 ^ 100 \<longrightarrow> \<bar>rnd x - x\<bar> \<le> \<bar>x\<bar> / 2 ^ 53))"

definition isna :: "pyfloat \<Rightarrow> bool" where
  "isna x = (x = NaN)"

fun is_fin :: "pyfloat \<Rightarrow> bool" where
  "is_fin (Fin _) = True"
| "is_fin _ = False"

fun sgn_of :: "pyfloat \<Rightarrow> real" where
  "sgn_of (Fin a) = sgn a"
| "sgn_of PInf = 1"
| "sgn_of NInf = - 1"
| "sgn_of NaN = 0"

definition inf_of_sign :: "real \<Rightarrow> pyfloat" where
  "inf_of_sign s = (if 0 < s then PInf else if s < 0 then NInf else NaN)"

fun fneg :: "pyfloat \<Rightarrow> pyfloat" where
  "fneg (Fin a) = Fin (- a)"
| "fneg PInf = NInf"
| "fneg NInf = PInf"
| "fneg NaN = NaN"

fun fadd :: "rounding \<Rightarrow> pyfloat \<Rightarrow> pyfloat \<Rightarrow> pyfloat" where
  "fadd rnd NaN _ = NaN"
| "fadd rnd _ NaN = NaN"
| "fadd rnd (Fin a) (Fin b) = Fin (rnd (a + b))"
| "fadd rnd (Fin a) y = y"
| "fadd rnd x (Fin b) = x"
| "fadd rnd PInf PInf = PInf"
| "fadd rnd NInf NInf = NInf"
| "fadd rnd PInf NInf = NaN"
| "fadd rnd NInf PInf = NaN"

definition fsub :: "rounding \<Rightarrow> pyfloat \<Rightarrow> pyfloat \<Rightarrow> pyfloat" where
  "fsub rnd x y = fadd rnd x (fneg y)"

fun fmul :: "rounding \<Rightarrow> pyfloat \<Rightarrow> pyfloat \<Rightarrow> pyfloat" where
  "fmul rnd NaN _ = NaN"
| "fmul rnd _ NaN = NaN"
| "fmul rnd (Fin a) (Fin b) = Fin (rnd (a * b))"
| "fmul rnd x y = inf_of_sign (sgn_of x * sgn_of y)"

text \<open>Division by a positive literal (\<open>/ 2\<close>, \<open>/ 1000.0\<close>).\<close>

fun fdivc :: "rounding \<Rightarrow> pyfloat \<Rightarrow> real \<Rightarrow> pyfloat" where
  "fdivc rnd (Fin a) c = Fin (rnd (a / c))"
| "fdivc rnd x c = x"

text \<open>\<open>x ** 2\<close>.\<close>

fun fpow2 :: "rounding \<Rightarrow> pyfloat \<Rightarrow> pyfloat" where
  "fpow2 rnd (Fin a) = Fin (rnd (a\<^sup>2))"
| "fpow2 rnd NaN = NaN"
| "fpow2 rnd _ = PInf"

text \<open>Python's \<open><\<close> on floats: every comparison with NaN is false.\<close>

fun flt :: "pyfloat \<Rightarrow> pyfloat \<Rightarrow> bool" where
  "flt (Fin a) (Fin b) = (a < b)"
| "flt NInf (Fin _) = True"
| "flt NInf PInf = True"
| "flt (Fin _) PInf = True"
| "flt _ _ = False"

text \<open>
  \<open>math.radians\<close> multiplies by the constant \<open>pi / 180\<close>, itself computed in floating
  point from the float nearest to \<open>\<pi>\<close>.
\<close>

definition radians :: "rounding \<Rightarrow> pyfloat \<Rightarrow> pyfloat" where
  "radians rnd x = fmul rnd x (Fin (rnd (rnd pi / 180)))"

fun fsin :: "rounding \<Rightarrow> pyfloat \<Rightarrow> error + pyfloat" where
  "fsin rnd (Fin a) = Inr (Fin (rnd (sin a)))"
| "fsin rnd NaN = Inr NaN"
| "fsin rnd _ = Inl (ValueError ''math domain error'')"

fun fcos :: "rounding \<Rightarrow> pyfloat \<Rightarrow> error + pyfloat" where
  "fcos rnd (Fin a) = Inr (Fin (rnd (cos a)))"
| "fcos rnd NaN = Inr NaN"
| "fcos rnd _ = Inl (ValueError ''math domain error'')"

fun fsqrt :: "rounding \<Rightarrow> pyfloat \<Rightarrow> error + pyfloat" where
  "fsqrt rnd (Fin a) =
     (if a < 0 then Inl (ValueError ''math domain error'') else Inr (Fin (rnd (sqrt a))))"
| "fsqrt rnd NaN = Inr NaN"
| "fsqrt rnd PInf = Inr PInf"
| "fsqrt rnd NInf = Inl (ValueError ''math domain error'')"

text \<open>\<open>math.atan2 y x\<close> on finite arguments: the angle of the point \<open>(x, y)\<close>.\<close>

definition atan2 :: "real \<Rightarrow> real \<Rightarrow> real" where
  "atan2 y x =
     (if 0 < x then arctan (y / x)
      else if x < 0 then (if 0 \<le> y then arctan (y / x) + pi else arctan (y / x) - pi)
      else if 0 < y then pi / 2
      else if y < 0 then - (pi / 2)
      else 0)"

fun fatan2 :: "rounding \<Rightarrow> pyfloat \<Rightarrow> pyfloat \<Rightarrow> pyfloat" where
  "fatan2 rnd NaN _ = NaN"
| "fatan2 rnd _ NaN = NaN"
| "fatan2 rnd (Fin y) (Fin x) = Fin (rnd (atan2 y x))"
| "fatan2 rnd PInf PInf = Fin (rnd (pi / 4))"
| "fatan2 rnd NInf PInf = Fin (rnd (- (pi / 4)))"
| "fatan2 rnd PInf NInf = Fin (rnd (3 * pi / 4))"
| "fatan2 rnd NInf NInf = Fin (rnd (- (3 * pi / 4)))"
| "fatan2 rnd PInf (Fin x) = Fin (rnd (pi / 2))"
| "fatan2 rnd NInf (Fin x) = Fin (rnd (- (pi / 2)))"
| "fatan2 rnd (Fin y) PInf = Fin 0"
| "fatan2 rnd (Fin y) NInf = (if 0 \<le> y then Fin (rnd pi) else Fin (rnd (- pi)))"

section \<open>Helper functions of \<open>services/logistics.py\<close>\<close>

text \<open>
  \<open>haversine(lat1, lon1, lat2, lon2)\<close>: the geodesic distance in meters. The calls of
  \<open>sin\<close>, \<open>cos\<close> and \<open>sqrt\<close> are evaluated in the order of the source, and the first
  ValueError ends the function: \<open>sqrt(1 - a)\<close> raises when the rounded \<open>a\<close> exceeds 1,
  which the code does not exclude. \<open>R\<close> is an integer, so \<open>2 * R\<close> is exact.
\<close>

definition haversine ::
  "rounding \<Rightarrow> pyfloat \<Rightarrow> pyfloat \<Rightarrow> pyfloat \<Rightarrow> pyfloat \<Rightarrow> error + pyfloat" where
  "haversine rnd lat1 lon1 lat2 lon2 =
     (let R = 6371000;
          phi1 = radians rnd lat1; phi2 = radians rnd lat2;
          dphi = radians rnd (fsub rnd lat2 lat1); dlambda = radians rnd (fsub rnd lon2 lon1)
      in bindE (fsin rnd (fdivc rnd dphi 2)) (\<lambda>s1.
         bindE (fcos rnd phi1) (\<lambda>c1.
         bindE (fcos rnd phi2) (\<lambda>c2.
         bindE (fsin rnd (fdivc rnd dlambda 2)) (\<lambda>s2.
         let a = fadd rnd (fpow2 rnd s1) (fmul rnd (fmul rnd c1 c2) (fpow2 rnd s2))
         in bindE (fsqrt rnd a) (\<lambda>ra.
            bindE (fsqrt rnd (fsub rnd (Fin 1) a)) (\<lambda>rb.
            Inr (fmul rnd (Fin (2 * R)) (fatan2 rnd ra rb)))))))))"

text \<open>
  The quantity \<open>a\<close> of the haversine formula, on finite coordinates in degrees, in exact
  arithmetic.
\<close>

definition hav_a :: "real \<Rightarrow> real \<Rightarrow> real \<Rightarrow> real \<Rightarrow> real" where
  "hav_a lat1 lon1 lat2 lon2 =
     (sin ((lat2 - lat1) * (pi / 180) / 2))\<^sup>2
     + cos (lat1 * (pi / 180)) * cos (lat2 * (pi / 180)) * (sin ((lon2 - lon1) * (pi / 180) / 2))\<^sup>2"

text \<open>
  The same quantity as the floating-point computation has it on finite coordinates: every
  operation of the source rounded, in the order of the source.
\<close>

definition hav_fa :: "rounding \<Rightarrow> real \<Rightarrow> real \<Rightarrow> real \<Rightarrow> real \<Rightarrow> real" where
  "hav_fa rnd lat1 lon1 lat2 lon2 =
     (let k = rnd (rnd pi / 180);
          s1 = rnd (sin (rnd (rnd (rnd (lat2 - lat1) * k) / 2)));
          c1 = rnd (cos (rnd (lat1 * k)));
          c2 = rnd (cos (rnd (lat2 * k)));
          s2 = rnd (sin (rnd (rnd (rnd (lon2 - lon1) * k) / 2)))
      in rnd (rnd (s1\<^sup>2) + rnd (rnd (c1 * c2) * rnd (s2\<^sup>2))))"

text \<open>The real value of a finite float.\<close>

fun fval :: "pyfloat \<Rightarrow> real" where
  "fval (Fin a) = a"
| "fval _ = 0"

text \<open>
  \<open>str.lower\<close>, on the ASCII letters; every other character is left as it is (no
  non-ASCII character lowers to a string that makes a mode name).
\<close>

definition lower_char :: "char \<Rightarrow> char" where
  "lower_char c =
     (case map_of (zip ''ABCDEFGHIJKLMNOPQRSTUVWXYZ'' ''abcdefghijklmnopqrstuvwxyz'') c of
        Some d \<Rightarrow> d
      | None \<Rightarrow> c)"

definition lower :: "string \<Rightarrow> string" where
  "lower s = map lower_char s"

text \<open>An OSM tag filter: \<open>True\<close> (any value) or a list of accepted values.\<close>

datatype tagsel = AnyValue | OneOf "string list"

type_synonym osm_tags = "(string \<times> tagsel) list"

definition get_default_tags :: "string \<Rightarrow> error + osm_tags" where
  "get_default_tags mode0 =
     (let mode = lower mode0 in
      if mode = ''auto'' then Inr [(''building'', OneOf [''warehouse'', ''depot'', ''industrial''])]
      else if mode = ''aero'' then Inr [(''aeroway'', OneOf [''terminal'', ''hangar'', ''cargo''])]
      else if mode = ''sea'' then Inr [(''harbour'', AnyValue), (''man_made'', OneOf [''pier'', ''dock''])]
      else if mode = ''rail'' then Inr [(''railway'', OneOf [''station'', ''yard'', ''cargo_terminal''])]
      else Inl (ValueError mode))"

section \<open>Data model\<close>

text \<open>
  A geometry of the feature table. The code reads \<open>geom.centroid\<close> of a polygon or
  multi-polygon and \<open>geom.x\<close>, \<open>geom.y\<close> of anything else; the centroid is computed by
  the geometry library, so a polygon is given here by its centroid \<open>(x, y)\<close>. An empty
  point or polygon has no coordinates (\<open>None\<close>): reading \<open>y\<close> or \<open>x\<close> of it, or of
  its centroid, raises in the geometry library. Only a point has the attributes \<open>x\<close>
  and \<open>y\<close>: on any other kind (\<open>OtherGeometry\<close>, with its \<open>geom_type\<close>) the attribute
  access raises AttributeError.
\<close>

datatype geometry =
    Point "(pyfloat \<times> pyfloat) option"
  | Polygon "(pyfloat \<times> pyfloat) option"
  | MultiPolygon "(pyfloat \<times> pyfloat) option"
  | OtherGeometry string

text \<open>
  A column value of a feature row: missing (\<open>None\<close> or NaN) or a value, given by its
  \<open>str()\<close> text. \<open>columns\<close> is \<open>row.to_dict()\<close>: every column of the row, the
  \<open>geometry\<close> column among them.
\<close>

datatype attr = ANone | AVal string

record feature =
  geometry :: geometry
  columns :: "(string \<times> attr) list"

record row =
  lat :: pyfloat
  lon :: pyfloat
  tags :: "(string \<times> attr) list"

type_synonym wedge = "nat \<times> nat \<times> pyfloat"

record graph =
  g_nodes :: "nat list"
  g_edges :: "wedge list"

type_synonym bbox = "pyfloat \<times> pyfloat \<times> pyfloat \<times> pyfloat"

text \<open>
  The external collaborators of the pipeline: the feature download
  (\<open>ox.features.features_from_bbox\<close>), the road network download
  (\<open>ox.graph_from_bbox\<close>), node snapping (\<open>ox.distance.nearest_nodes\<close>, called with
  the longitudes and the latitudes), routing (\<open>ox.routing.shortest_path\<close>, which returns
  \<open>None\<close> when there is no path) and the segment lengths of a route (the \<open>length\<close>
  column of \<open>ox.routing.route_to_gdf\<close>). Each may raise.
\<close>

record 'g provider =
  features_from_bbox :: "bbox \<Rightarrow> osm_tags \<Rightarrow> error + feature list"
  graph_from_bbox :: "bbox \<Rightarrow> error + 'g"
  nearest_nodes :: "'g \<Rightarrow> pyfloat list \<Rightarrow> pyfloat list \<Rightarrow> error + nat list"
  shortest_path :: "'g \<Rightarrow> nat \<Rightarrow> nat \<Rightarrow> error + nat list option"
  route_lengths :: "'g \<Rightarrow> nat list \<Rightarrow> error + pyfloat list"

record point =
  p_lat :: pyfloat
  p_lon :: pyfloat
  p_tags :: "(string \<times> string option) list"

record edge =
  from_index :: nat
  to_index :: nat
  distance :: pyfloat

record mst_result =
  nodes_count :: nat
  edges_count :: nat
  total_distance :: pyfloat
  points :: "point list"
  edges :: "edge list"
  map_path :: string
  r_mode :: string
  r_bbox :: bbox

text \<open>
  The dictionary \<open>generate_logistics_mst\<close> returns: \<open>{"status": "no_data", "message":
  ...}\<close> with no other key, or the full structure with \<open>"status": "ok"\<close>.
\<close>

datatype result = NoData | Success mst_result

fun status :: "result \<Rightarrow> string" where
  "status NoData = ''no_data''"
| "status (Success r) = ''ok''"

text \<open>\<open>result[key]\<close> for the three summary keys: \<open>None\<close> is Python's KeyError.\<close>

fun get_nodes_count :: "result \<Rightarrow> nat option" where
  "get_nodes_count NoData = None"
| "get_nodes_count (Success r) = Some (nodes_count r)"

fun get_edges_count :: "result \<Rightarrow> nat option" where
  "get_edges_count NoData = None"
| "get_edges_count (Success r) = Some (edges_count r)"

fun get_total_distance :: "result \<Rightarrow> pyfloat option" where
  "get_total_distance NoData = None"
| "get_total_distance (Success r) = Some (total_distance r)"

section \<open>The pipeline stages\<close>

definition load_logistics_features ::
  "'g provider \<Rightarrow> bbox \<Rightarrow> string \<Rightarrow> string \<Rightarrow> error + feature list" where
  \<comment> \<open>the cache file is written and never read (\<open>if False\<close>); the write is not modelled\<close>
  "load_logistics_features p bb mode cache_path =
     bindE (get_default_tags mode) (\<lambda>tgs. features_from_bbox p bb tgs)"

fun coords_yx :: "(pyfloat \<times> pyfloat) option \<Rightarrow> error + (pyfloat \<times> pyfloat)" where
  "coords_yx None = Inl GeometryError"
| "coords_yx (Some (x, y)) = Inr (y, x)"

fun geom_yx :: "geometry \<Rightarrow> error + (pyfloat \<times> pyfloat)" where
  "geom_yx (Polygon centroid) = coords_yx centroid"
| "geom_yx (MultiPolygon centroid) = coords_yx centroid"
| "geom_yx (Point xy) = coords_yx xy"
| "geom_yx (OtherGeometry t) = Inl AttributeError"

definition extract_row :: "feature \<Rightarrow> error + row" where
  "extract_row f =
     bindE (geom_yx (geometry f)) (\<lambda>(y, x). Inr \<lparr>lat = y, lon = x, tags = columns f\<rparr>)"

definition extract_coordinates :: "feature list \<Rightarrow> error + row list" where
  "extract_coordinates gdf = mapE extract_row gdf"

text \<open>\<open>coords_df.iterrows()\<close>: the rows with their positions.\<close>

definition iterrows :: "row list \<Rightarrow> (nat \<times> row) list" where
  "iterrows coords_df = List.enumerate 0 coords_df"

definition row_pairs :: "row list \<Rightarrow> ((nat \<times> row) \<times> (nat \<times> row)) list" where
  "row_pairs coords_df =
     concat (map (\<lambda>(i, row_i).
       concat (map (\<lambda>(j, row_j). if i < j then [((i, row_i), (j, row_j))] else [])
                   (iterrows coords_df)))
       (iterrows coords_df))"

text \<open>The index pairs \<open>i < j\<close> below \<open>n\<close>, in the order the two nested loops visit them.\<close>

definition idx_pairs :: "nat \<Rightarrow> (nat \<times> nat) list" where
  "idx_pairs n = concat (map (\<lambda>i. map (Pair i) [Suc i..<n]) [0..<n])"

definition pair_edge :: "rounding \<Rightarrow> (nat \<times> row) \<times> (nat \<times> row) \<Rightarrow> error + wedge" where
  "pair_edge rnd = (\<lambda>((i, row_i), (j, row_j)).
     bindE (haversine rnd (lat row_i) (lon row_i) (lat row_j) (lon row_j)) (\<lambda>dist.
     Inr (i, j, dist)))"

definition build_geodesic_graph :: "rounding \<Rightarrow> row list \<Rightarrow> error + graph" where
  "build_geodesic_graph rnd coords_df =
     bindE (mapE (pair_edge rnd) (row_pairs coords_df)) (\<lambda>es.
     Inr \<lparr>g_nodes = [0..<length coords_df], g_edges = es\<rparr>)"

subsection \<open>Minimum spanning tree\<close>

text \<open>
  Modelled from the spec: \<open>networkx.minimum_spanning_tree\<close>, which \<open>build_mst_graph\<close>
  calls, is not part of the sources. Section 4.3 of the specification asks for a correct
  MST algorithm (Prim's or Kruskal's) that breaks ties by a total order over the edges, by
  weight and then by \<open>(i, j)\<close> lexicographically. The model is Kruskal's algorithm: the
  edges sorted in that order, a union-find structure over the nodes, an edge kept when
  its end points lie in different components. As the library does by default, a NaN
  weight raises ValueError. The edges of the result are in the order of acceptance.
\<close>

fun edge_before :: "wedge \<Rightarrow> wedge \<Rightarrow> bool" where
  "edge_before (i, j, w) (i', j', w') =
     (if flt w w' then True
      else if flt w' w then False
      else if i < i' then True
      else if i' < i then False
      else j < j')"

fun insort_edge :: "wedge \<Rightarrow> wedge list \<Rightarrow> wedge list" where
  "insort_edge e [] = [e]"
| "insort_edge e (x # xs) = (if edge_before x e then x # insort_edge e xs else e # x # xs)"

definition sort_edges :: "wedge list \<Rightarrow> wedge list" where
  "sort_edges es = foldr insort_edge es []"

text \<open>Union-find as a labelling of the nodes by a representative of their component.\<close>

type_synonym uf = "nat \<Rightarrow> nat"

definition uf_init :: uf where
  "uf_init = (\<lambda>x. x)"

definition uf_union :: "uf \<Rightarrow> nat \<Rightarrow> nat \<Rightarrow> uf" where
  "uf_union lab u v = (\<lambda>x. if lab x = lab v then lab u else lab x)"

fun kruskal_edges :: "uf \<Rightarrow> wedge list \<Rightarrow> wedge list" where
  "kruskal_edges lab [] = []"
| "kruskal_edges lab ((u, v, w) # es) =
     (if lab u = lab v then kruskal_edges lab es
      else (u, v, w) # kruskal_edges (uf_union lab u v) es)"

text \<open>The union-find structure after the loop over the edges.\<close>

fun kruskal_uf :: "uf \<Rightarrow> wedge list \<Rightarrow> uf" where
  "kruskal_uf lab [] = lab"
| "kruskal_uf lab ((u, v, w) # es) =
     (if lab u = lab v then kruskal_uf lab es
      else kruskal_uf (uf_union lab u v) es)"

definition minimum_spanning_tree :: "graph \<Rightarrow> error + graph" where
  "minimum_spanning_tree G =
     (if filter (\<lambda>(u, v, w). isna w) (g_edges G) = []
      then Inr \<lparr>g_nodes = g_nodes G,
                g_edges = kruskal_edges uf_init (sort_edges (g_edges G))\<rparr>
      else Inl (ValueError ''NaN found as an edge weight''))"

definition build_mst_graph :: "graph \<Rightarrow> error + graph" where
  "build_mst_graph G = minimum_spanning_tree G"

text \<open>
  What the specification asks of the result. Two nodes are connected in an edge set when
  a chain of its edges, taken in either direction, leads from one to the other; an edge
  set is acyclic when no edge joins two nodes that the other edges already connect; a
  spanning tree of a graph on the nodes below \<open>n\<close> is an acyclic subset of its edges
  that connects all of them. The weight of a finite edge is its real value.
\<close>

definition wv :: "wedge \<Rightarrow> real" where
  "wv e = fval (snd (snd e))"

definition links :: "wedge set \<Rightarrow> (nat \<times> nat) set" where
  "links E = {(a, b). \<exists>w. (a, b, w) \<in> E \<or> (b, a, w) \<in> E}"

definition connected_in :: "wedge set \<Rightarrow> nat \<Rightarrow> nat \<Rightarrow> bool" where
  "connected_in E u v = ((u, v) \<in> (links E)\<^sup>*)"

definition acyclic_edges :: "wedge set \<Rightarrow> bool" where
  "acyclic_edges E = (\<forall>e \<in> E. \<not> connected_in (E - {e}) (fst e) (fst (snd e)))"

definition spanning_tree :: "nat \<Rightarrow> wedge set \<Rightarrow> wedge set \<Rightarrow> bool" where
  "spanning_tree n E T = (T \<subseteq> E \<and> acyclic_edges T \<and> (\<forall>u<n. \<forall>v<n. connected_in T u v))"

definition total_weight :: "wedge set \<Rightarrow> real" where
  "total_weight T = (\<Sum>e \<in> T. wv e)"

text \<open>The labelling of the union-find structure describes the components of an edge set.\<close>

definition uf_inv :: "uf \<Rightarrow> wedge set \<Rightarrow> bool" where
  "uf_inv lab F = (\<forall>u v. (lab u = lab v) = connected_in F u v)"

subsection \<open>Map drawing with road distances\<close>

text \<open>
  What \<open>visualize_mst_map\<close> puts on the map: a circle marker per point, a straight line
  per tree edge with its colour, and a label with a distance in kilometers and its colour
  (the number stands for the formatted text; the popup texts of the markers are left
  out).
\<close>

datatype map_item =
    CircleMarker pyfloat pyfloat
  | PolyLine "pyfloat \<times> pyfloat" "pyfloat \<times> pyfloat" string
  | DistanceLabel "pyfloat \<times> pyfloat" pyfloat string

definition iloc :: "'a list \<Rightarrow> nat \<Rightarrow> error + 'a" where
  "iloc xs i = (if i < length xs then Inr (xs ! i) else Inl IndexError)"

definition point_markers :: "row list \<Rightarrow> map_item list" where
  "point_markers coords_df =
     concat (map (\<lambda>r. if isna (lat r) then [] else if isna (lon r) then []
                       else [CircleMarker (lat r) (lon r)]) coords_df)"

text \<open>
  \<open>Series.sum()\<close> of pandas skips NaN values; the additions are taken in the order of
  the column.
\<close>

definition pd_sum :: "rounding \<Rightarrow> pyfloat list \<Rightarrow> pyfloat" where
  "pd_sum rnd xs = foldl (fadd rnd) (Fin 0) (filter (\<lambda>x. x \<noteq> NaN) xs)"

definition midpoint :: "rounding \<Rightarrow> row \<Rightarrow> row \<Rightarrow> pyfloat \<times> pyfloat" where
  "midpoint rnd row_u row_v =
     (fdivc rnd (fadd rnd (lat row_u) (lat row_v)) 2,
      fdivc rnd (fadd rnd (lon row_u) (lon row_v)) 2)"

definition draw_refined ::
  "rounding \<Rightarrow> 'g provider \<Rightarrow> 'g \<Rightarrow> row list \<Rightarrow> nat \<Rightarrow> nat \<Rightarrow> nat list \<Rightarrow> error + map_item list" where
  "draw_refined rnd p G_drive coords_df u v route =
     bindE (route_lengths p G_drive route) (\<lambda>lens.
     let dist_m = pd_sum rnd lens; dist_km = fdivc rnd dist_m 1000 in
     bindE (iloc coords_df u) (\<lambda>row_u.
     bindE (iloc coords_df v) (\<lambda>row_v.
     Inr [PolyLine (lat row_u, lon row_u) (lat row_v, lon row_v) ''blue'',
          DistanceLabel (midpoint rnd row_u row_v) dist_km ''white'',
          DistanceLabel (midpoint rnd row_u row_v) dist_km ''white''])))"

text \<open>The fallback calls \<open>haversine\<close> again, outside the \<open>try\<close>.\<close>

definition draw_fallback :: "rounding \<Rightarrow> row list \<Rightarrow> nat \<Rightarrow> nat \<Rightarrow> error + map_item list" where
  "draw_fallback rnd coords_df u v =
     bindE (iloc coords_df u) (\<lambda>row_u.
     bindE (iloc coords_df v) (\<lambda>row_v.
     bindE (haversine rnd (lat row_u) (lon row_u) (lat row_v) (lon row_v)) (\<lambda>h.
     let dist_hav = fdivc rnd h 1000 in
     Inr [PolyLine (lat row_u, lon row_u) (lat row_v, lon row_v) ''gray'',
          DistanceLabel (midpoint rnd row_u row_v) dist_hav ''gray''])))"

text \<open>
  One round of the loop over the tree edges. Any exception of the routing query is caught
  (\<open>route = None\<close>); nothing else in the loop body is inside the \<open>try\<close>.
\<close>

definition draw_edge ::
  "rounding \<Rightarrow> 'g provider \<Rightarrow> 'g \<Rightarrow> row list \<Rightarrow> nat list \<Rightarrow> wedge \<Rightarrow> error + map_item list" where
  "draw_edge rnd p G_drive coords_df osm_node = (\<lambda>(u, v, w).
     bindE (iloc osm_node u) (\<lambda>node_u.
     bindE (iloc osm_node v) (\<lambda>node_v.
     let route = (case shortest_path p G_drive node_u node_v of
                    Inl e \<Rightarrow> None
                  | Inr r \<Rightarrow> r)
     in case route of
          None \<Rightarrow> draw_fallback rnd coords_df u v
        | Some nodes \<Rightarrow>
            if 1 < length nodes then draw_refined rnd p G_drive coords_df u v nodes
            else draw_fallback rnd coords_df u v)))"

definition visualize_mst_map ::
  "rounding \<Rightarrow> 'g provider \<Rightarrow> row list \<Rightarrow> graph \<Rightarrow> bbox \<Rightarrow> string \<Rightarrow> string \<Rightarrow>
     error + (string \<times> map_item list)" where
  "visualize_mst_map rnd p coords_df mst bb mode output_file =
     (let markers = point_markers coords_df in
      bindE (graph_from_bbox p bb) (\<lambda>G_drive.
      bindE (nearest_nodes p G_drive (map lon coords_df) (map lat coords_df)) (\<lambda>osm_node.
      if length osm_node = length coords_df
      then bindE (mapE (draw_edge rnd p G_drive coords_df osm_node) (g_edges mst)) (\<lambda>drawn.
           Inr (output_file, markers @ concat drawn))
      else Inl (ValueError ''Length of values does not match length of index''))))"

subsection \<open>The main function\<close>

definition path_join :: "string \<Rightarrow> string \<Rightarrow> string" where
  "path_join d f = (if d = [] then f else if last d = CHR ''/'' then d @ f else d @ ''/'' @ f)"

definition clean_tags :: "(string \<times> attr) list \<Rightarrow> (string \<times> string option) list" where
  "clean_tags tgs =
     map (\<lambda>(k, v). (k, case v of ANone \<Rightarrow> None | AVal s \<Rightarrow> Some s))
         (filter (\<lambda>(k, v). k \<noteq> ''geometry'') tgs)"

definition make_points :: "row list \<Rightarrow> point list" where
  "make_points coords_df =
     map (\<lambda>r. \<lparr>p_lat = lat r, p_lon = lon r, p_tags = clean_tags (tags r)\<rparr>) coords_df"

text \<open>The loop over \<open>mst.edges(data=True)\<close>: the edge list and the running total.\<close>

definition collect_edges :: "rounding \<Rightarrow> wedge list \<Rightarrow> edge list \<times> pyfloat" where
  "collect_edges rnd es =
     foldl (\<lambda>(acc, total) (u, v, w).
              (acc @ [\<lparr>from_index = u, to_index = v, distance = w\<rparr>], fadd rnd total w))
           ([], Fin 0) es"

definition generate_logistics_mst ::
  "rounding \<Rightarrow> 'g provider \<Rightarrow> bbox \<Rightarrow> string \<Rightarrow> string \<Rightarrow> string option \<Rightarrow> error + result" where
  "generate_logistics_mst rnd p bb mode cache_dir output_file0 =
     (let cache_path = path_join cache_dir (''logistics_'' @ mode @ ''_features.geojson'');
          dflt = path_join cache_dir (''logistics_'' @ mode @ ''_mst.html'');
          output_file = (case output_file0 of
                           None \<Rightarrow> dflt
                         | Some f \<Rightarrow> if f = [] then dflt else f)
      in bindE (load_logistics_features p bb mode cache_path) (\<lambda>gdf.
         if gdf = [] then Inr NoData
         else bindE (extract_coordinates gdf) (\<lambda>coords_df.
              bindE (build_geodesic_graph rnd coords_df) (\<lambda>G.
              bindE (build_mst_graph G) (\<lambda>mst.
              bindE (visualize_mst_map rnd p coords_df mst bb mode output_file) (\<lambda>(html_path, drawn).
              let pts = make_points coords_df;
                  (es, total) = collect_edges rnd (g_edges mst)
              in Inr (Success \<lparr>nodes_count = length pts, edges_count = length es,
                                total_distance = total, points = pts, edges = es,
                                map_path = html_path, r_mode = mode, r_bbox = bb\<rparr>)))))))"

text \<open>
  A routing failure for one edge, as the loop sees it: the query raised, returned
  \<open>None\<close>, or returned a path of fewer than two nodes.
\<close>

definition routing_failed :: "'g provider \<Rightarrow> 'g \<Rightarrow> nat \<Rightarrow> nat \<Rightarrow> bool" where
  "routing_failed p G_drive node_u node_v =
     (case shortest_path p G_drive node_u node_v of
        Inl e \<Rightarrow> True
      | Inr None \<Rightarrow> True
      | Inr (Some nodes) \<Rightarrow> length nodes < 2)"

definition mk_edge :: "wedge \<Rightarrow> edge" where
  "mk_edge = (\<lambda>(u, v, w). \<lparr>from_index = u, to_index = v, distance = w\<rparr>)"

section \<open>Example inputs\<close>

text \<open>
  Two point features at latitude 0 and latitude 1 on the prime meridian, and a road
  network that snaps them to the nodes 10 and 20 and routes between them through node
  15, over segments of 70 km and 50 km. \<open>demo_weight\<close> is the haversine distance of the
  two points as the floating-point computation returns it.
\<close>

definition demo_bbox :: bbox where
  "demo_bbox = (Fin (- 1), Fin (- 1), Fin 2, Fin 2)"

definition demo_features :: "feature list" where
  "demo_features =
     [\<lparr>geometry = Point (Some (Fin 0, Fin 0)),
       columns = [(''name'', AVal ''A''), (''geometry'', AVal ''POINT (0 0)'')]\<rparr>,
      \<lparr>geometry = Point (Some (Fin 0, Fin 1)),
       columns = [(''name'', ANone), (''geometry'', AVal ''POINT (0 1)'')]\<rparr>]"

definition demo_coords :: "row list" where
  "demo_coords =
     [\<lparr>lat = Fin 0, lon = Fin 0, tags = [(''name'', AVal ''A''), (''geometry'', AVal ''POINT (0 0)'')]\<rparr>,
      \<lparr>lat = Fin 1, lon = Fin 0, tags = [(''name'', ANone), (''geometry'', AVal ''POINT (0 1)'')]\<rparr>]"

definition demo_weight :: pyfloat where
  "demo_weight =
     (case haversine round64 (Fin 0) (Fin 0) (Fin 1) (Fin 0) of
        Inr w \<Rightarrow> w
      | Inl e \<Rightarrow> NaN)"

definition demo_graph :: graph where
  "demo_graph = \<lparr>g_nodes = [0, 1], g_edges = [(0, 1, demo_weight)]\<rparr>"

definition demo_mst :: graph where
  "demo_mst = \<lparr>g_nodes = [0, 1], g_edges = [(0, 1, demo_weight)]\<rparr>"

definition demo_provider :: "unit provider" where
  "demo_provider =
     \<lparr>features_from_bbox = (\<lambda>bb tgs. Inr demo_features),
      graph_from_bbox = (\<lambda>bb. Inr ()),
      nearest_nodes = (\<lambda>g xs ys. Inr [10, 20]),
      shortest_path = (\<lambda>g a b. Inr (Some [10, 15, 20])),
      route_lengths = (\<lambda>g route. Inr [Fin 70000, Fin 50000])\<rparr>"

text \<open>What the pipeline returns for the two features.\<close>

definition demo_result :: mst_result where
  "demo_result =
     \<lparr>nodes_count = 2, edges_count = 1, total_distance = demo_weight,
      points = [\<lparr>p_lat = Fin 0, p_lon = Fin 0, p_tags = [(''name'', Some ''A'')]\<rparr>,
                \<lparr>p_lat = Fin 1, p_lon = Fin 0, p_tags = [(''name'', None)]\<rparr>],
      edges = [\<lparr>from_index = 0, to_index = 1, distance = demo_weight\<rparr>],
      map_path = ''cache/logistics_auto_mst.html'',
      r_mode = ''auto'', r_bbox = demo_bbox\<rparr>"

text \<open>The same with no route between the two nodes, and with a routing query that raises.\<close>

definition nopath_provider :: "unit provider" where
  "nopath_provider = demo_provider\<lparr>shortest_path := (\<lambda>g a b. Inr None)\<rparr>"


text \<open>The road network cannot be downloaded; node snapping fails; no feature is found.\<close>

definition outage_provider :: "unit provider" where
  "outage_provider =
     demo_provider\<lparr>graph_from_bbox := (\<lambda>bb. Inl (ExternalError ''network download failed''))\<rparr>"


definition empty_provider :: "unit provider" where
  "empty_provider = demo_provider\<lparr>features_from_bbox := (\<lambda>bb tgs. Inr [])\<rparr>"

text \<open>A point whose latitude is NaN and a point at latitude 1000.\<close>

definition nan_features :: "feature list" where
  "nan_features =
     [\<lparr>geometry = Point (Some (Fin 30, NaN)), columns = []\<rparr>,
      \<lparr>geometry = Point (Some (Fin 30, Fin 1000)), columns = []\<rparr>]"

section \<open>Properties of the rounding\<close>

lemma round_even_error: "\<bar>of_int (round_even y) - y\<bar> \<le> 1 / 2"
proof -
  have "of_int \<lfloor>y\<rfloor> \<le> y" "y < of_int \<lfloor>y\<rfloor> + 1" by linarith+
  then show ?thesis
    by (auto simp: round_even_def Let_def)
qed

lemma round_even_of_int: "round_even (of_int k) = k"
  by (simp add: round_even_def Let_def)

lemma round64_zero: "round64 0 = 0"
  by (simp add: round64_def)

lemma two_powr_m52: "(2::real) powr (- 52) = 1 / 2 ^ 52"
  by (simp add: powr_minus_divide)

lemma round64_one: "round64 1 = 1"
proof -
  have "round_even ((2::real) ^ 52) = 2 ^ 52"
    using round_even_of_int[of "2 ^ 52"] by simp
  then show ?thesis
    by (simp add: round64_def Let_def two_powr_m52)
qed

lemma round64_error: "\<bar>round64 x - x\<bar> \<le> \<bar>x\<bar> / 2 ^ 53"
proof (cases "x = 0")
  case True
  then show ?thesis by (simp add: round64_def)
next
  case False
  define e where "e = \<lfloor>log 2 \<bar>x\<bar>\<rfloor>"
  define u :: real where "u = 2 powr (of_int e - 52)"
  have u: "0 < u" by (simp add: u_def)
  have "2 powr (of_int e) \<le> 2 powr (log 2 \<bar>x\<bar>)"
    unfolding e_def by (intro powr_mono) simp_all
  also have "\<dots> = \<bar>x\<bar>" using False by simp
  finally have p: "2 powr (of_int e) \<le> \<bar>x\<bar>" .
  have ue: "u = 2 powr (of_int e) / 2 ^ 52"
    by (simp add: u_def powr_diff)
  have "round64 x - x = u * (of_int (round_even (x / u)) - x / u)"
    using False u by (simp add: round64_def Let_def e_def u_def algebra_simps)
  then have "\<bar>round64 x - x\<bar> = u * \<bar>of_int (round_even (x / u)) - x / u\<bar>"
    using u by (simp add: abs_mult)
  also have "\<dots> \<le> u * (1 / 2)"
    using u round_even_error[of "x / u"] by (intro mult_left_mono) simp_all
  also have "\<dots> = 2 powr (of_int e) / 2 ^ 53" by (simp add: ue)
  also have "\<dots> \<le> \<bar>x\<bar> / 2 ^ 53" using p by (simp add: divide_right_mono)
  finally show ?thesis .
qed

lemma ieee_like_round64: "ieee_like round64"
  unfolding ieee_like_def
  by (intro conjI allI impI round64_zero round64_one round64_error)

lemma ieee_like_exact: "ieee_like (\<lambda>x. x)"
  by (simp add: ieee_like_def)

lemma floor_log2_bounds:
  fixes x :: real
  assumes "x \<noteq> 0"
  shows "2 powr of_int \<lfloor>log 2 \<bar>x\<bar>\<rfloor> \<le> \<bar>x\<bar>" and "\<bar>x\<bar> < 2 powr (of_int \<lfloor>log 2 \<bar>x\<bar>\<rfloor> + 1)"
proof -
  have "2 powr of_int \<lfloor>log 2 \<bar>x\<bar>\<rfloor> \<le> 2 powr (log 2 \<bar>x\<bar>)"
    by (intro powr_mono) simp_all
  then show "2 powr of_int \<lfloor>log 2 \<bar>x\<bar>\<rfloor> \<le> \<bar>x\<bar>" using assms by simp
  have "log 2 \<bar>x\<bar> < of_int \<lfloor>log 2 \<bar>x\<bar>\<rfloor> + 1" by linarith
  then have "2 powr (log 2 \<bar>x\<bar>) < 2 powr (of_int \<lfloor>log 2 \<bar>x\<bar>\<rfloor> + 1)"
    by (intro powr_less_mono) simp_all
  then show "\<bar>x\<bar> < 2 powr (of_int \<lfloor>log 2 \<bar>x\<bar>\<rfloor> + 1)" using assms by simp
qed

lemma two_powr_int: "0 \<le> k \<Longrightarrow> (2::real) powr of_int k = 2 ^ nat k"
  using powr_realpow[of "2::real" "nat k"] by simp

lemma round64_dyadic:
  assumes "\<bar>m\<bar> < 2 ^ 53"
  shows "round64 (of_int m * 2 powr of_int e) = of_int m * 2 powr of_int e"
proof (cases "m = 0")
  case True
  then show ?thesis by (simp add: round64_def)
next
  case False
  define x :: real where "x = of_int m * 2 powr of_int e"
  have x0: "x \<noteq> 0" using False by (simp add: x_def)
  define E where "E = \<lfloor>log 2 \<bar>x\<bar>\<rfloor>"
  define u :: real where "u = 2 powr (of_int E - 52)"
  have u: "0 < u" by (simp add: u_def)
  have "\<bar>of_int m :: real\<bar> < 2 ^ 53" using assms by (metis of_int_abs of_int_less_numeral_power_cancel_iff)
  then have "\<bar>x\<bar> < 2 ^ 53 * 2 powr of_int e"
    by (simp add: x_def abs_mult)
  also have "\<dots> = 2 powr (of_int (e + 53))"
    by (simp add: powr_add)
  finally have "\<bar>x\<bar> < 2 powr (of_int (e + 53))" .
  moreover have "2 powr of_int E \<le> \<bar>x\<bar>" unfolding E_def by (rule floor_log2_bounds(1)[OF x0])
  ultimately have "(2::real) powr of_int E < 2 powr (of_int (e + 53))" by linarith
  then have "E < e + 53" by simp
  then have k: "0 \<le> e + 52 - E" by simp
  have "x / u = of_int m * (2 powr of_int e / 2 powr (of_int E - 52))"
    by (simp add: x_def u_def)
  also have "2 powr of_int e / 2 powr (of_int E - 52) = (2::real) powr of_int (e + 52 - E)"
  proof -
    have "(of_int e - (of_int E - 52) :: real) = of_int (e + 52 - E)" by simp
    then show ?thesis by (simp only: powr_diff[symmetric])
  qed
  also have "\<dots> = 2 ^ nat (e + 52 - E)" by (rule two_powr_int[OF k])
  also have "of_int m * 2 ^ nat (e + 52 - E) = (of_int (m * 2 ^ nat (e + 52 - E)) :: real)" by simp
  finally have "x / u = of_int (m * 2 ^ nat (e + 52 - E))" .
  then have "of_int (round_even (x / u)) = x / u"
    by (simp only: round_even_of_int)
  then have "round64 x = u * (x / u)"
    using x0 by (simp add: round64_def Let_def E_def u_def)
  then show ?thesis using u by (simp add: x_def)
qed

lemma round64_of_int: "\<bar>m\<bar> < 2 ^ 53 \<Longrightarrow> round64 (of_int m) = of_int m"
  using round64_dyadic[of m 0] by simp

lemma round64_half: "round64 (1 / 2) = 1 / 2"
  using round64_dyadic[of 1 "- 1"] by (simp add: powr_minus_divide)

lemma round64_idem: "round64 (round64 x) = round64 x"
proof (cases "x = 0")
  case True
  then show ?thesis by (simp add: round64_def)
next
  case False
  define E where "E = \<lfloor>log 2 \<bar>x\<bar>\<rfloor>"
  define u :: real where "u = 2 powr (of_int E - 52)"
  define k where "k = round_even (x / u)"
  have u: "0 < u" by (simp add: u_def)
  have r: "round64 x = of_int k * 2 powr of_int (E - 52)"
    using False by (simp add: round64_def Let_def E_def u_def k_def)
  have "\<bar>x\<bar> < 2 powr (of_int E + 1)" unfolding E_def by (rule floor_log2_bounds(2)[OF False])
  then have "\<bar>x\<bar> / u < 2 powr (of_int E + 1) / u" using u by (simp add: divide_strict_right_mono)
  also have "\<dots> = 2 powr 53" by (simp add: u_def powr_diff[symmetric])
  also have "\<dots> = 2 ^ 53" using powr_realpow[of "2::real" 53] by simp
  finally have "\<bar>x / u\<bar> < 2 ^ 53" using u by simp
  moreover have "\<bar>of_int k - x / u\<bar> \<le> 1 / 2" unfolding k_def by (rule round_even_error)
  ultimately have "\<bar>of_int k :: real\<bar> < 2 ^ 53 + 1" by linarith
  then have "\<bar>of_int k :: real\<bar> < of_int (2 ^ 53 + 1)" by simp
  then have "\<bar>k\<bar> < 2 ^ 53 + 1" by (metis of_int_abs of_int_less_iff)
  then have kk: "\<bar>k\<bar> < 2 ^ 53 \<or> k = 2 ^ 53 \<or> k = - (2 ^ 53)" by linarith
  show ?thesis
  proof (cases "\<bar>k\<bar> < 2 ^ 53")
    case True
    then show ?thesis unfolding r by (rule round64_dyadic)
  next
    case False
    with kk have "k = 2 ^ 53 \<or> k = - (2 ^ 53)" by simp
    then obtain s :: int where s: "\<bar>s\<bar> < 2 ^ 53" "k = s * 2 ^ 53" by (auto intro: that[of 1] that[of "- 1"])
    have p53: "(2::real) ^ 53 = 2 powr 53"
      using powr_realpow[of "2::real" 53] by simp
    have "(53 + of_int (E - 52) :: real) = of_int (E + 1)" by simp
    then have "(2::real) powr 53 * 2 powr of_int (E - 52) = 2 powr of_int (E + 1)"
      by (simp only: powr_add[symmetric])
    then have "(2::real) ^ 53 * 2 powr of_int (E - 52) = 2 powr of_int (E + 1)"
      by (simp only: p53)
    then have "round64 x = of_int s * 2 powr of_int (E + 1)"
      unfolding r s(2) by (simp add: mult.assoc)
    then show ?thesis using round64_dyadic[OF s(1), of "E + 1"] by simp
  qed
qed

section \<open>Properties of the helper functions\<close>

lemma arctan_leibniz:
  fixes x :: real
  assumes "0 \<le> x" "x \<le> 1"
  shows "x - x ^ 3 / 3 \<le> arctan x" and "arctan x \<le> x"
    and "arctan x \<le> x - x ^ 3 / 3 + x ^ 5 / 5"
proof -
  let ?a = "\<lambda>n. 1 / real (n * 2 + 1) * x ^ (n * 2 + 1)"
  have ax: "\<bar>x\<bar> \<le> 1" using assms by simp
  have z: "?a \<longlonglongrightarrow> 0" by (rule zeroseq_arctan_series[OF ax])
  have p: "0 \<le> ?a n" for n using assms by simp
  have m: "?a (Suc n) \<le> ?a n" for n
  proof -
    have "x ^ (Suc n * 2 + 1) \<le> x ^ (n * 2 + 1)"
      by (rule power_decreasing) (use assms in auto)
    moreover have "1 / real (Suc n * 2 + 1) \<le> 1 / real (n * 2 + 1)"
      by (simp add: field_simps)
    ultimately show ?thesis
      using assms by (intro mult_mono) auto
  qed
  have "(\<Sum>i. (-1) ^ i * ?a i) \<le> (\<Sum>i<2*0+1. (-1) ^ i * ?a i)"
    by (rule summable_Leibniz'(4)[OF z p m])
  then show "arctan x \<le> x" using arctan_series[OF ax] by simp
  have "(\<Sum>i<2*1. (-1) ^ i * ?a i) \<le> (\<Sum>i. (-1) ^ i * ?a i)"
    by (rule summable_Leibniz'(2)[OF z p m])
  then show "x - x ^ 3 / 3 \<le> arctan x"
    using arctan_series[OF ax] by (simp add: numeral_2_eq_2 lessThan_Suc power3_eq_cube)
  have "(\<Sum>i. (-1) ^ i * ?a i) \<le> (\<Sum>i<2*1+1. (-1) ^ i * ?a i)"
    by (rule summable_Leibniz'(4)[OF z p m])
  then show "arctan x \<le> x - x ^ 3 / 3 + x ^ 5 / 5"
    using arctan_series[OF ax]
    by (simp add: numeral_2_eq_2 numeral_3_eq_3 lessThan_Suc power3_eq_cube power_numeral_reduce)
qed

lemma pi_bounds: "3.14 < pi" "pi < 3.142"
proof -
  have a: "1 / 7 - (1 / 7) ^ 3 / 3 \<le> arctan (1 / 7)"
    "arctan (1 / 7) \<le> 1 / 7 - (1 / 7) ^ 3 / 3 + (1 / 7) ^ 5 / 5"
    using arctan_leibniz[of "1 / 7"] by simp_all
  have b: "3 / 79 - (3 / 79) ^ 3 / 3 \<le> arctan (3 / 79)"
    "arctan (3 / 79) \<le> 3 / 79 - (3 / 79) ^ 3 / 3 + (3 / 79) ^ 5 / 5"
    using arctan_leibniz[of "3 / 79"] by simp_all
  have e: "pi = 4 * (5 * arctan (1 / 7) + 2 * arctan (3 / 79))"
    using machin_Euler by simp
  show "3.14 < pi" using a(1) b(1) unfolding e by (simp add: power3_eq_cube)
  show "pi < 3.142" using a(2) b(2) unfolding e by (simp add: power_numeral_reduce)
qed

lemma sin_bounds:
  fixes x :: real
  assumes "0 \<le> x"
  shows "x - x ^ 3 / 6 \<le> sin x" and "sin x \<le> x"
proof -
  show "sin x \<le> x" by (rule sin_x_le_x[OF assms])
  have "\<bar>sin x - (\<Sum>m<3. sin_coeff m * x ^ m)\<bar> \<le> inverse (fact 3) * \<bar>x\<bar> ^ 3"
    by (rule Maclaurin_sin_bound)
  then have "\<bar>sin x - x\<bar> \<le> x ^ 3 / 6"
    using assms by (simp add: sin_coeff_def numeral_3_eq_3 lessThan_Suc fact_numeral)
  then show "x - x ^ 3 / 6 \<le> sin x" by linarith
qed

lemma rnd_between:
  assumes "ieee_like rnd" and "lo \<le> x" "x \<le> hi"
    and "1 / 1000000 \<le> lo" "hi \<le> 1000000"
    and "lo' \<le> lo * (1 - 1 / 10 ^ 9)" "hi * (1 + 1 / 10 ^ 9) \<le> hi'"
  shows "lo' \<le> rnd x \<and> rnd x \<le> hi'"
proof -
  have x: "0 < x" "1 / 1000000 \<le> x" "x \<le> 1000000" using assms(2-5) by linarith+
  have "1 / 2 ^ 100 \<le> \<bar>x\<bar> \<and> \<bar>x\<bar> \<le> 2 ^ 100" using x by simp
  then have "\<bar>rnd x - x\<bar> \<le> \<bar>x\<bar> / 2 ^ 53"
    using assms(1) unfolding ieee_like_def by blast
  also have "\<dots> \<le> x / 10 ^ 9" using x(1) by simp
  finally have e: "\<bar>rnd x - x\<bar> \<le> x / 10 ^ 9" .
  have "lo * (1 - 1 / 10 ^ 9) \<le> x * (1 - 1 / 10 ^ 9)"
    using assms(2) by (intro mult_right_mono) simp_all
  moreover have "x * (1 + 1 / 10 ^ 9) \<le> hi * (1 + 1 / 10 ^ 9)"
    using assms(3) by (intro mult_right_mono) simp_all
  moreover have "x * (1 - 1 / 10 ^ 9) \<le> rnd x" "rnd x \<le> x * (1 + 1 / 10 ^ 9)"
  proof -
    have "x - x / 10 ^ 9 \<le> rnd x" "rnd x \<le> x + x / 10 ^ 9"
      using e by linarith+
    then show "x * (1 - 1 / 10 ^ 9) \<le> rnd x" "rnd x \<le> x * (1 + 1 / 10 ^ 9)"
      by (simp_all add: algebra_simps)
  qed
  ultimately show ?thesis using assms(6,7) by linarith
qed

lemma bindE_Inr [simp]: "bindE (Inr a) f = f a"
  by (simp add: bindE_def)

lemma bindE_Inl [simp]: "bindE (Inl e) f = Inl e"
  by (simp add: bindE_def)

lemma haversine_Fin:
  "haversine rnd (Fin lat1) (Fin lon1) (Fin lat2) (Fin lon2) =
     (let a = hav_fa rnd lat1 lon1 lat2 lon2 in
      if a < 0 \<or> rnd (1 - a) < 0 then Inl (ValueError ''math domain error'')
      else Inr (Fin (rnd (12742000 * rnd (atan2 (rnd (sqrt a)) (rnd (sqrt (rnd (1 - a)))))))))"
  by (simp add: haversine_def radians_def fsub_def hav_fa_def Let_def)

lemma haversine_same:
  assumes "rnd 0 = 0" "rnd 1 = 1"
  shows "haversine rnd (Fin la) (Fin lo) (Fin la) (Fin lo) = Inr (Fin 0)"
  using assms by (simp add: haversine_Fin hav_fa_def atan2_def)

lemma cos_mult_half:
  fixes x y :: real
  shows "cos x * cos y = (cos ((x + y) / 2))\<^sup>2 - (sin ((y - x) / 2))\<^sup>2"
proof -
  define p q where "p = (x + y) / 2" and "q = (y - x) / 2"
  have x: "x = p - q" and y: "y = p + q" by (simp_all add: p_def q_def field_simps)
  have "cos x * cos y = (cos p)\<^sup>2 * (cos q)\<^sup>2 - (sin p)\<^sup>2 * (sin q)\<^sup>2"
    unfolding x y cos_add cos_diff by (simp add: power2_eq_square algebra_simps)
  also have "\<dots> = (cos p)\<^sup>2 - (sin q)\<^sup>2"
    by (simp add: sin_squared_eq[of p] cos_squared_eq[of q] algebra_simps)
  finally show ?thesis by (simp add: p_def q_def)
qed

lemma hav_a_bounds: "0 \<le> hav_a lat1 lon1 lat2 lon2" "hav_a lat1 lon1 lat2 lon2 \<le> 1"
proof -
  define x y where "x = lat1 * (pi / 180)" and "y = lat2 * (pi / 180)"
  define s where "s = (sin ((lon2 - lon1) * (pi / 180) / 2))\<^sup>2"
  define A B where "A = (sin ((y - x) / 2))\<^sup>2" and "B = (cos ((x + y) / 2))\<^sup>2"
  have d: "(lat2 - lat1) * (pi / 180) / 2 = (y - x) / 2"
    by (simp add: x_def y_def field_simps)
  have a: "hav_a lat1 lon1 lat2 lon2 = (1 - s) * A + s * B"
    unfolding hav_a_def d x_def[symmetric] y_def[symmetric] s_def[symmetric] cos_mult_half
    by (simp add: A_def B_def algebra_simps)
  have s: "0 \<le> s" "s \<le> 1" unfolding s_def by (simp_all add: abs_square_le_1)
  have A: "0 \<le> A" "A \<le> 1" unfolding A_def by (simp_all add: abs_square_le_1)
  have B: "0 \<le> B" "B \<le> 1" unfolding B_def by (simp_all add: abs_square_le_1)
  show "0 \<le> hav_a lat1 lon1 lat2 lon2" unfolding a using s A B by simp
  have "(1 - s) * A \<le> (1 - s) * 1" using s A by (intro mult_left_mono) auto
  moreover have "s * B \<le> s * 1" using s B by (intro mult_left_mono) auto
  ultimately show "hav_a lat1 lon1 lat2 lon2 \<le> 1" unfolding a by simp
qed

lemma atan2_arcsin:
  assumes "0 \<le> a" "a \<le> 1"
  shows "atan2 (sqrt a) (sqrt (1 - a)) = arcsin (sqrt a)"
proof -
  define t where "t = arcsin (sqrt a)"
  have r: "0 \<le> sqrt a" "sqrt a \<le> 1" "- 1 \<le> sqrt a"
  proof -
    show "0 \<le> sqrt a" "sqrt a \<le> 1" using assms by simp_all
    then show "- 1 \<le> sqrt a" by linarith
  qed
  have s: "sin t = sqrt a" unfolding t_def by (rule sin_arcsin[OF r(3) r(2)])
  have c: "cos t = sqrt (1 - a)"
    unfolding t_def using r assms by (simp add: cos_arcsin)
  have t0: "0 \<le> t" unfolding t_def using r by (intro arcsin_nonneg) simp
  have t1: "t \<le> pi / 2" unfolding t_def by (rule arcsin_ubound[OF r(3) r(2)])
  show ?thesis
  proof (cases "a = 1")
    case True
    then show ?thesis by (simp add: atan2_def)
  next
    case False
    then have "0 < sqrt (1 - a)" using assms by simp
    then have cp: "0 < cos t" by (simp add: c)
    have "t \<noteq> pi / 2"
    proof
      assume "t = pi / 2"
      then have "cos t = 0" by (simp only: cos_pi_half)
      then show False using cp by simp
    qed
    then have "t < pi / 2" using t1 by simp
    moreover have "- (pi / 2) < t" using t0 pi_gt_zero by linarith
    ultimately have "arctan (tan t) = t" by (intro arctan_tan)
    then have "arctan (sin t / cos t) = t" by (simp add: tan_def)
    then have "atan2 (sin t) (cos t) = t" using cp by (simp add: atan2_def)
    then show ?thesis unfolding s c by (simp add: t_def)
  qed
qed

lemma hav_fa_exact: "hav_fa (\<lambda>x. x) lat1 lon1 lat2 lon2 = hav_a lat1 lon1 lat2 lon2"
  by (simp add: hav_fa_def hav_a_def)

lemma haversine_exact:
  "haversine (\<lambda>x. x) (Fin lat1) (Fin lon1) (Fin lat2) (Fin lon2) =
     Inr (Fin (2 * 6371000 * arcsin (sqrt (hav_a lat1 lon1 lat2 lon2))))"
  using hav_a_bounds[of lat1 lon1 lat2 lon2]
  by (simp add: haversine_Fin hav_fa_exact Let_def atan2_arcsin not_less[symmetric])

lemma hav_fa_one_degree:
  assumes "rnd 0 = 0" "rnd 1 = 1"
  shows "hav_fa rnd 0 0 1 0 = rnd (rnd ((rnd (sin (rnd (rnd (rnd (rnd pi / 180)) / 2))))\<^sup>2))"
  using assms by (simp add: hav_fa_def Let_def)

lemma haversine_one_degree:
  assumes r: "ieee_like rnd"
  shows "\<exists>d. haversine rnd (Fin 0) (Fin 0) (Fin 1) (Fin 0) = Inr (Fin d) \<and>
             111085 \<le> d \<and> d \<le> 111268"
proof -
  note rb = rnd_between[OF r]
  have r01: "rnd 0 = 0" "rnd 1 = 1" using r by (simp_all add: ieee_like_def)
  define p0 where "p0 = rnd pi"
  define k0 where "k0 = rnd (p0 / 180)"
  define k where "k = rnd k0"
  define h where "h = rnd (k / 2)"
  define s where "s = rnd (sin h)"
  define q where "q = rnd (s\<^sup>2)"
  define a where "a = rnd q"
  define ra where "ra = rnd (sqrt a)"
  define b where "b = rnd (1 - a)"
  define rb' where "rb' = rnd (sqrt b)"
  define t where "t = rnd (atan2 ra rb')"
  define d where "d = rnd (12742000 * t)"
  have p0: "3.1399 \<le> p0 \<and> p0 \<le> 3.1421"
    unfolding p0_def using pi_bounds by (intro rb[of "3.14" _ "3.142"]) simp_all
  have k0: "0.017442 \<le> k0 \<and> k0 \<le> 0.017458"
    unfolding k0_def using p0 by (intro rb[of "0.017443" _ "0.017457"]) simp_all
  have k: "0.017441 \<le> k \<and> k \<le> 0.017459"
    unfolding k_def using k0 by (intro rb[of "0.017442" _ "0.017458"]) simp_all
  have h: "0.00872 \<le> h \<and> h \<le> 0.00873"
    unfolding h_def using k by (intro rb[of "0.0087205" _ "0.0087295"]) simp_all
  have "h ^ 3 \<le> 0.00873 ^ 3" using h by (intro power_mono) simp_all
  also have "\<dots> \<le> (0.000001 :: real)" by (simp add: power3_eq_cube)
  finally have h3: "h ^ 3 \<le> 0.000001" .
  have sh: "0.0087198 \<le> sin h \<and> sin h \<le> 0.00873"
  proof -
    have "0 \<le> h" using h by simp
    then have "h - h ^ 3 / 6 \<le> sin h" "sin h \<le> h" by (rule sin_bounds)+
    then show ?thesis using h h3 by simp
  qed
  have s: "0.0087197 \<le> s \<and> s \<le> 0.0087301"
    unfolding s_def using sh by (intro rb[of "0.0087198" _ "0.00873"]) simp_all
  have s2: "0.0087197\<^sup>2 \<le> s\<^sup>2" "s\<^sup>2 \<le> 0.0087301\<^sup>2"
    using s by (simp_all add: power_mono)
  have q: "0.000076032 \<le> q \<and> q \<le> 0.000076216"
    unfolding q_def using s2 by (intro rb[of "0.000076033" _ "0.000076215"]) (simp_all add: power2_eq_square)
  have a: "0.000076031 \<le> a \<and> a \<le> 0.000076217"
    unfolding a_def using q by (intro rb[of "0.000076032" _ "0.000076216"]) simp_all
  have a2: "0.0087195\<^sup>2 \<le> a" "a \<le> 0.0087303\<^sup>2"
    using a by (simp_all add: power2_eq_square)
  have sa: "0.0087195 \<le> sqrt a" "sqrt a \<le> 0.0087303"
    by (rule real_le_rsqrt[OF a2(1)], rule real_le_lsqrt[OF _ a2(2)]) simp
  have ra: "0.0087194 \<le> ra \<and> ra \<le> 0.0087304"
    unfolding ra_def using sa by (intro rb[of "0.0087195" _ "0.0087303"]) simp_all
  have b: "0.9999 \<le> b \<and> b \<le> 1"
    unfolding b_def using a by (intro rb[of "0.99992" _ "0.99993"]) simp_all
  have b2: "0.9999\<^sup>2 \<le> b" "b \<le> 1\<^sup>2"
    using b by (simp_all add: power2_eq_square)
  have sb: "0.9999 \<le> sqrt b" "sqrt b \<le> 1"
    by (rule real_le_rsqrt[OF b2(1)], rule real_le_lsqrt[OF _ b2(2)]) simp
  have rb': "0.9998 \<le> rb' \<and> rb' \<le> 1.0001"
    unfolding rb'_def using sb by (intro rb[of "0.9999" _ "1"]) simp_all
  define y where "y = ra / rb'"
  have ypos: "0 < rb'" using rb' by simp
  have y: "0.0087185 \<le> y" "y \<le> 0.0087322"
    unfolding y_def using ra rb' ypos by (simp_all add: pos_le_divide_eq pos_divide_le_eq)
  have "y ^ 3 \<le> 0.0087322 ^ 3" using y by (intro power_mono) simp_all
  also have "\<dots> \<le> (0.0000007 :: real)" by (simp add: power3_eq_cube)
  finally have y3: "y ^ 3 \<le> 0.0000007" .
  have at: "atan2 ra rb' = arctan y" using ypos by (simp add: atan2_def y_def)
  have ay: "0.0087182 \<le> arctan y \<and> arctan y \<le> 0.0087322"
  proof -
    have "0 \<le> y" "y \<le> 1" using y by simp_all
    then have "y - y ^ 3 / 3 \<le> arctan y" "arctan y \<le> y" by (rule arctan_leibniz)+
    then show ?thesis using y y3 by simp
  qed
  have t: "0.0087181 \<le> t \<and> t \<le> 0.0087323"
    unfolding t_def at using ay by (intro rb[of "0.0087182" _ "0.0087322"]) simp_all
  have d: "111085 \<le> d \<and> d \<le> 111268"
    unfolding d_def using t by (intro rb[of "111086" _ "111267"]) simp_all
  have fa: "hav_fa rnd 0 0 1 0 = a"
    unfolding hav_fa_one_degree[OF r01] a_def q_def s_def h_def k_def k0_def p0_def ..
  have "haversine rnd (Fin 0) (Fin 0) (Fin 1) (Fin 0) = Inr (Fin d)"
    unfolding haversine_Fin fa Let_def d_def t_def rb'_def ra_def b_def[symmetric]
    using a b by simp
  then show ?thesis using d by blast
qed

lemma haversine_Fin_cases:
  "haversine rnd (Fin lat1) (Fin lon1) (Fin lat2) (Fin lon2) = Inl (ValueError ''math domain error'') \<or>
   (\<exists>d. haversine rnd (Fin lat1) (Fin lon1) (Fin lat2) (Fin lon2) = Inr (Fin d))"
  by (simp add: haversine_Fin Let_def)

lemma haversine_is_fin:
  "haversine rnd (Fin lat1) (Fin lon1) (Fin lat2) (Fin lon2) = Inr w \<Longrightarrow> is_fin w"
  using haversine_Fin_cases[of rnd lat1 lon1 lat2 lon2] by auto

lemma demo_weight:
  "haversine round64 (Fin 0) (Fin 0) (Fin 1) (Fin 0) = Inr demo_weight"
  "\<exists>d. demo_weight = Fin d \<and> 111085 \<le> d \<and> d \<le> 111268"
  using haversine_one_degree[OF ieee_like_round64] by (auto simp: demo_weight_def)

text \<open>
  Claim C8. With a rounding of relative error at most \<open>1 / 2 ^ 53\<close> under which 0 and 1
  are floats (binary64 is one), \<open>haversine\<close> returns exactly 0 for two identical finite
  positions, and for the positions \<open>(0, 0)\<close> and \<open>(1, 0)\<close> it returns a distance
  that, in kilometers, lies between 110 and 112, within 1 km of 111. The function follows
  the haversine formula with the Earth radius 6,371,000 m: evaluated in exact arithmetic on
  finite coordinates it is \<open>2 R arcsin (sqrt a)\<close>, the angle whose sine is \<open>sqrt a\<close>
  and whose cosine is \<open>sqrt (1 - a)\<close>, with
  \<open>a = sin\<^sup>2(d\<phi>/2) + cos \<phi>1 cos \<phi>2 sin\<^sup>2(d\<lambda>/2)\<close>. (In floating point the rounded
  \<open>a\<close> can exceed 1, and then the function raises ValueError instead of returning.)
\<close>

theorem haversine_spec:
  assumes "ieee_like rnd"
  shows "haversine rnd (Fin la) (Fin lo) (Fin la) (Fin lo) = Inr (Fin 0) \<and>
   (\<exists>d. haversine rnd (Fin 0) (Fin 0) (Fin 1) (Fin 0) = Inr (Fin d) \<and>
        110 < d / 1000 \<and> d / 1000 < 112 \<and> \<bar>d / 1000 - 111\<bar> < 1) \<and>
   haversine (\<lambda>x. x) (Fin lat1) (Fin lon1) (Fin lat2) (Fin lon2) =
     Inr (Fin (2 * 6371000 * arcsin (sqrt (hav_a lat1 lon1 lat2 lon2)))) \<and>
   sin (arcsin (sqrt (hav_a lat1 lon1 lat2 lon2))) = sqrt (hav_a lat1 lon1 lat2 lon2) \<and>
   cos (arcsin (sqrt (hav_a lat1 lon1 lat2 lon2))) = sqrt (1 - hav_a lat1 lon1 lat2 lon2) \<and>
   hav_a lat1 lon1 lat2 lon2 =
     (sin ((lat2 - lat1) * (pi / 180) / 2))\<^sup>2 +
     cos (lat1 * (pi / 180)) * cos (lat2 * (pi / 180)) * (sin ((lon2 - lon1) * (pi / 180) / 2))\<^sup>2"
proof (intro conjI)
  have r01: "rnd 0 = 0" "rnd 1 = 1" using assms by (simp_all add: ieee_like_def)
  show "haversine rnd (Fin la) (Fin lo) (Fin la) (Fin lo) = Inr (Fin 0)"
    by (rule haversine_same[OF r01])
  obtain d where d: "haversine rnd (Fin 0) (Fin 0) (Fin 1) (Fin 0) = Inr (Fin d)"
    "111085 \<le> d" "d \<le> 111268"
    using haversine_one_degree[OF assms] by blast
  have "110 < d / 1000 \<and> d / 1000 < 112 \<and> \<bar>d / 1000 - 111\<bar> < 1"
    using d(2,3) by (simp add: abs_less_iff)
  then show "\<exists>d. haversine rnd (Fin 0) (Fin 0) (Fin 1) (Fin 0) = Inr (Fin d) \<and>
        110 < d / 1000 \<and> d / 1000 < 112 \<and> \<bar>d / 1000 - 111\<bar> < 1"
    using d(1) by blast
  show "haversine (\<lambda>x. x) (Fin lat1) (Fin lon1) (Fin lat2) (Fin lon2) =
     Inr (Fin (2 * 6371000 * arcsin (sqrt (hav_a lat1 lon1 lat2 lon2))))"
    by (rule haversine_exact)
  have a: "0 \<le> hav_a lat1 lon1 lat2 lon2" "hav_a lat1 lon1 lat2 lon2 \<le> 1"
    by (rule hav_a_bounds)+
  have r: "- 1 \<le> sqrt (hav_a lat1 lon1 lat2 lon2)" "sqrt (hav_a lat1 lon1 lat2 lon2) \<le> 1"
  proof -
    have "0 \<le> sqrt (hav_a lat1 lon1 lat2 lon2)" using a by simp
    then show "- 1 \<le> sqrt (hav_a lat1 lon1 lat2 lon2)" by linarith
    show "sqrt (hav_a lat1 lon1 lat2 lon2) \<le> 1" using a by simp
  qed
  show "sin (arcsin (sqrt (hav_a lat1 lon1 lat2 lon2))) = sqrt (hav_a lat1 lon1 lat2 lon2)"
    by (rule sin_arcsin[OF r])
  show "cos (arcsin (sqrt (hav_a lat1 lon1 lat2 lon2))) = sqrt (1 - hav_a lat1 lon1 lat2 lon2)"
    using a by (simp add: cos_arcsin[OF r])
  show "hav_a lat1 lon1 lat2 lon2 =
     (sin ((lat2 - lat1) * (pi / 180) / 2))\<^sup>2 +
     cos (lat1 * (pi / 180)) * cos (lat2 * (pi / 180)) * (sin ((lon2 - lon1) * (pi / 180) / 2))\<^sup>2"
    by (simp add: hav_a_def)
qed

theorem haversine_spec_witness:
  "ieee_like round64 \<and>
   haversine round64 (Fin 55) (Fin 37) (Fin 55) (Fin 37) = Inr (Fin 0) \<and>
   (\<exists>d. haversine round64 (Fin 0) (Fin 0) (Fin 1) (Fin 0) = Inr (Fin d) \<and>
        110 < d / 1000 \<and> d / 1000 < 112)"
  using haversine_spec[OF ieee_like_round64, of 55 37] ieee_like_round64 by blast

text \<open>
  Claim C9. \<open>get_default_tags\<close> depends on its argument only through the lowercased
  mode, so that \<open>"AUTO"\<close> and \<open>"auto"\<close> give the same tags; it returns a fixed tag
  mapping for each of \<open>auto\<close>, \<open>aero\<close>, \<open>sea\<close> and \<open>rail\<close>; and it raises
  ValueError (with the lowercased mode) exactly when the lowercased mode is none of the
  four.
\<close>

theorem get_default_tags_spec:
  assumes "lower m1 = lower m2"
  shows "get_default_tags m1 = get_default_tags m2 \<and>
    get_default_tags ''AUTO'' = get_default_tags ''auto'' \<and>
    get_default_tags ''auto'' = Inr [(''building'', OneOf [''warehouse'', ''depot'', ''industrial''])] \<and>
    get_default_tags ''aero'' = Inr [(''aeroway'', OneOf [''terminal'', ''hangar'', ''cargo''])] \<and>
    get_default_tags ''sea'' = Inr [(''harbour'', AnyValue), (''man_made'', OneOf [''pier'', ''dock''])] \<and>
    get_default_tags ''rail'' = Inr [(''railway'', OneOf [''station'', ''yard'', ''cargo_terminal''])] \<and>
    (\<exists>e. get_default_tags m1 = Inl e) = (lower m1 \<notin> {''auto'', ''aero'', ''sea'', ''rail''}) \<and>
    (get_default_tags m1 = Inl (ValueError (lower m1))) = (lower m1 \<notin> {''auto'', ''aero'', ''sea'', ''rail''})"
proof (intro conjI)
  show "get_default_tags m1 = get_default_tags m2"
    using assms by (simp add: get_default_tags_def)
qed (simp_all add: get_default_tags_def Let_def lower_def lower_char_def)

theorem get_default_tags_spec_witness:
  "lower ''AUTO'' = lower ''auto'' \<and> get_default_tags ''AUTO'' = get_default_tags ''auto'' \<and>
   get_default_tags ''Rail'' = Inr [(''railway'', OneOf [''station'', ''yard'', ''cargo_terminal''])]"
  using get_default_tags_spec[of "''AUTO''" "''auto''"] get_default_tags_spec[of "''Rail''" "''rail''"]
  by (simp add: lower_def lower_char_def)

section \<open>Properties of the pipeline stages\<close>

lemma filter_less_upt: "i < n \<Longrightarrow> filter (\<lambda>j. i < j) [0..<n] = [Suc i..<n]"
proof (induction n)
  case 0
  then show ?case by simp
next
  case (Suc n)
  show ?case
  proof (cases "i < n")
    case True
    then show ?thesis using Suc.IH by simp
  next
    case False
    then have "i = n" using Suc.prems by simp
    then show ?thesis by (simp add: filter_empty_conv)
  qed
qed

lemma bindE_eq_Inr: "bindE m f = Inr b \<longleftrightarrow> (\<exists>a. m = Inr a \<and> f a = Inr b)"
  by (cases m) simp_all

lemma bindE_InrE:
  assumes "bindE m f = Inr b"
  obtains a where "m = Inr a" "f a = Inr b"
  using assms by (auto simp: bindE_eq_Inr)

lemma mapE_Inr_iff:
  "mapE f xs = Inr ys \<longleftrightarrow> length ys = length xs \<and> (\<forall>k<length xs. f (xs ! k) = Inr (ys ! k))"
proof (induction xs arbitrary: ys)
  case Nil
  then show ?case by auto
next
  case (Cons x xs)
  show ?case
  proof (cases ys)
    case Nil
    then show ?thesis by (auto simp: bindE_eq_Inr)
  next
    case (Cons y ys')
    have "(\<forall>k<Suc (length xs). f ((x # xs) ! k) = Inr ((y # ys') ! k)) \<longleftrightarrow>
          f x = Inr y \<and> (\<forall>k<length xs. f (xs ! k) = Inr (ys' ! k))"
      by (auto simp: nth_Cons split: nat.splits)
    then show ?thesis using Cons.IH[of ys'] by (auto simp: Cons bindE_eq_Inr)
  qed
qed

lemma mapE_map_all_Inr:
  "(\<And>x. x \<in> set xs \<Longrightarrow> f (g x) = Inr (h x)) \<Longrightarrow> mapE f (map g xs) = Inr (map h xs)"
  by (induction xs) simp_all


lemma iterrows_map: "iterrows c = map (\<lambda>i. (i, c ! i)) [0..<length c]"
  by (rule nth_equalityI) (simp_all add: iterrows_def enumerate_eq_zip)

lemma concat_map_if: "concat (map (\<lambda>x. if P x then [f x] else []) xs) = map f (filter P xs)"
  by (induction xs) simp_all

lemma row_pairs_eq:
  "row_pairs c = map (\<lambda>(i, j). ((i, c ! i), (j, c ! j))) (idx_pairs (length c))"
proof -
  have inner: "concat (map (\<lambda>(j, row_j). if i < j then [((i, r), (j, row_j))] else []) (iterrows c))
      = map (\<lambda>j. ((i, r), (j, c ! j))) [Suc i..<length c]" if "i < length c" for i and r :: row
  proof -
    have "concat (map (\<lambda>(j, row_j). if i < j then [((i, r), (j, row_j))] else []) (iterrows c))
      = concat (map (\<lambda>j. if i < j then [((i, r), (j, c ! j))] else []) [0..<length c])"
      by (simp add: iterrows_map comp_def)
    also have "\<dots> = map (\<lambda>j. ((i, r), (j, c ! j))) (filter (\<lambda>j. i < j) [0..<length c])"
      by (rule concat_map_if)
    finally show ?thesis using that by (simp add: filter_less_upt)
  qed
  have "row_pairs c = concat (map (\<lambda>i. map (\<lambda>j. ((i, c ! i), (j, c ! j))) [Suc i..<length c]) [0..<length c])"
    unfolding row_pairs_def
    apply (subst (2) iterrows_map)
    apply (simp add: comp_def)
    apply (rule arg_cong[where f = concat])
    apply (rule map_cong[OF refl])
    apply (simp add: inner)
    done
  also have "\<dots> = map (\<lambda>(i, j). ((i, c ! i), (j, c ! j))) (idx_pairs (length c))"
    by (simp add: idx_pairs_def map_concat comp_def)
  finally show ?thesis .
qed

lemma set_idx_pairs: "set (idx_pairs n) = {(i, j). i < j \<and> j < n}"
proof -
  have "(a, b) \<in> set (idx_pairs n) \<longleftrightarrow> a < b \<and> b < n" for a b
  proof
    assume "(a, b) \<in> set (idx_pairs n)"
    then show "a < b \<and> b < n" by (auto simp: idx_pairs_def)
  next
    assume h: "a < b \<and> b < n"
    then have "a \<in> {0..<n}" "(a, b) \<in> Pair a ` {Suc a..<n}" by auto
    then show "(a, b) \<in> set (idx_pairs n)" unfolding idx_pairs_def by auto
  qed
  then show ?thesis by auto
qed

lemma distinct_idx_pairs: "distinct (idx_pairs n)"
proof -
  have "x = y" if "x < n" "y < n" "map (Pair x) [Suc x..<n] = map (Pair y) [Suc y..<n]" for x y
    using arg_cong[OF that(3), of length] that(1,2) by simp
  then show ?thesis
    unfolding idx_pairs_def
    by (intro distinct_concat) (auto simp: distinct_map inj_on_def)
qed

lemma is_fin_fval: "is_fin x \<Longrightarrow> x = Fin (fval x)"
  by (cases x) simp_all

lemma build_geodesic_graph_edges:
  assumes "build_geodesic_graph rnd c = Inr G"
  shows "g_nodes G = [0..<length c]"
    and "map (\<lambda>(i, j, w). (i, j)) (g_edges G) = idx_pairs (length c)"
    and "(i, j, w) \<in> set (g_edges G) \<Longrightarrow>
           i < j \<and> j < length c \<and>
           haversine rnd (lat (c ! i)) (lon (c ! i)) (lat (c ! j)) (lon (c ! j)) = Inr w"
proof -
  from assms obtain es where es: "mapE (pair_edge rnd) (row_pairs c) = Inr es"
    and G: "G = \<lparr>g_nodes = [0..<length c], g_edges = es\<rparr>"
    by (auto simp: build_geodesic_graph_def bindE_eq_Inr)
  show "g_nodes G = [0..<length c]" by (simp add: G)
  let ?ps = "idx_pairs (length c)"
  from es
  have len: "length es = length ?ps"
    and nth: "\<And>k. k < length ?ps \<Longrightarrow> pair_edge rnd (row_pairs c ! k) = Inr (es ! k)"
    by (simp_all add: mapE_Inr_iff row_pairs_eq)
  have key: "\<exists>w. es ! k = (fst (?ps ! k), snd (?ps ! k), w) \<and>
      haversine rnd (lat (c ! fst (?ps ! k))) (lon (c ! fst (?ps ! k)))
                (lat (c ! snd (?ps ! k))) (lon (c ! snd (?ps ! k))) = Inr w"
    if "k < length ?ps" for k
    using nth[OF that] that
    by (auto simp: row_pairs_eq pair_edge_def bindE_eq_Inr split: prod.splits)
  show "map (\<lambda>(i, j, w). (i, j)) (g_edges G) = idx_pairs (length c)"
  proof (rule nth_equalityI)
    show "length (map (\<lambda>(i, j, w). (i, j)) (g_edges G)) = length ?ps" by (simp add: G len)
  next
    fix k assume "k < length (map (\<lambda>(i, j, w). (i, j)) (g_edges G))"
    then have k: "k < length ?ps" by (simp add: G len)
    from key[OF k] show "map (\<lambda>(i, j, w). (i, j)) (g_edges G) ! k = ?ps ! k"
      using k by (auto simp: G len)
  qed
  assume "(i, j, w) \<in> set (g_edges G)"
  then obtain k where k: "k < length ?ps" and e: "es ! k = (i, j, w)"
    by (auto simp: G in_set_conv_nth len)
  from key[OF k] e have p: "?ps ! k = (i, j)"
    and h: "haversine rnd (lat (c ! i)) (lon (c ! i)) (lat (c ! j)) (lon (c ! j)) = Inr w"
    by (auto simp: prod_eq_iff)
  have "(i, j) \<in> set ?ps" using k p by (metis nth_mem)
  then show "i < j \<and> j < length c \<and>
      haversine rnd (lat (c ! i)) (lon (c ! i)) (lat (c ! j)) (lon (c ! j)) = Inr w"
    using h by (simp add: set_idx_pairs)
qed

lemma build_geodesic_graph_fin:
  assumes "build_geodesic_graph rnd c = Inr G"
    and "\<And>r. r \<in> set c \<Longrightarrow> is_fin (lat r) \<and> is_fin (lon r)"
    and "(i, j, w) \<in> set (g_edges G)"
  shows "is_fin w"
proof -
  from build_geodesic_graph_edges(3)[OF assms(1,3)]
  have ij: "i < j" "j < length c"
    and h: "haversine rnd (lat (c ! i)) (lon (c ! i)) (lat (c ! j)) (lon (c ! j)) = Inr w"
    by simp_all
  have "c ! i \<in> set c" "c ! j \<in> set c" using ij by simp_all
  then have "is_fin (lat (c ! i))" "is_fin (lon (c ! i))" "is_fin (lat (c ! j))" "is_fin (lon (c ! j))"
    using assms(2) by blast+
  then show ?thesis
    using h haversine_is_fin[of rnd "fval (lat (c ! i))" "fval (lon (c ! i))"
        "fval (lat (c ! j))" "fval (lon (c ! j))" w]
    by (simp add: is_fin_fval[symmetric])
qed

lemma extract_row_Inr_iff:
  "extract_row f = Inr r \<longleftrightarrow> geom_yx (geometry f) = Inr (lat r, lon r) \<and> tags r = columns f"
  by (cases "geom_yx (geometry f)") (auto simp: extract_row_def)

text \<open>
  Claim C7, as the code has it. \<open>extract_coordinates\<close> validates no coordinate. It
  returns when the coordinates of every geometry can be read, and then gives one row per
  record, in order, whose latitude and longitude are the \<open>y\<close> and \<open>x\<close> of the point
  (of the centroid, for a polygon or multi-polygon) as they are, with no record dropped
  and no drop count. A sequence of points with coordinates, whatever their values,
  non-finite and out-of-range ones included, is returned whole.
\<close>

theorem extract_coordinates_no_validation:
  "(extract_coordinates gdf = Inr rows) =
     (length rows = length gdf \<and>
      (\<forall>k<length gdf. geom_yx (geometry (gdf ! k)) = Inr (lat (rows ! k), lon (rows ! k)) \<and>
                      tags (rows ! k) = columns (gdf ! k))) \<and>
   extract_coordinates (map (\<lambda>(x, y, cols). \<lparr>geometry = Point (Some (x, y)), columns = cols\<rparr>) pts) =
     Inr (map (\<lambda>(x, y, cols). \<lparr>lat = y, lon = x, tags = cols\<rparr>) pts) \<and>
   geom_yx (Point (Some (x, y))) = Inr (y, x) \<and>
   geom_yx (Polygon (Some (cx, cy))) = Inr (cy, cx) \<and>
   geom_yx (MultiPolygon (Some (cx, cy))) = Inr (cy, cx)"
proof (intro conjI)
  show "(extract_coordinates gdf = Inr rows) =
     (length rows = length gdf \<and>
      (\<forall>k<length gdf. geom_yx (geometry (gdf ! k)) = Inr (lat (rows ! k), lon (rows ! k)) \<and>
                      tags (rows ! k) = columns (gdf ! k)))"
    by (simp add: extract_coordinates_def mapE_Inr_iff extract_row_Inr_iff)
  show "extract_coordinates (map (\<lambda>(x, y, cols). \<lparr>geometry = Point (Some (x, y)), columns = cols\<rparr>) pts) =
     Inr (map (\<lambda>(x, y, cols). \<lparr>lat = y, lon = x, tags = cols\<rparr>) pts)"
    unfolding extract_coordinates_def
    by (rule mapE_map_all_Inr) (auto simp: extract_row_def)
qed simp_all

theorem extract_coordinates_no_validation_witness:
  "extract_coordinates nan_features =
     Inr [\<lparr>lat = NaN, lon = Fin 30, tags = []\<rparr>, \<lparr>lat = Fin 1000, lon = Fin 30, tags = []\<rparr>] \<and>
   length nan_features = 2"
proof -
  have "\<forall>k<length nan_features.
      geom_yx (geometry (nan_features ! k)) =
        Inr (lat ([\<lparr>lat = NaN, lon = Fin 30, tags = []\<rparr>, \<lparr>lat = Fin 1000, lon = Fin 30, tags = []\<rparr>] ! k),
             lon ([\<lparr>lat = NaN, lon = Fin 30, tags = []\<rparr>, \<lparr>lat = Fin 1000, lon = Fin 30, tags = []\<rparr>] ! k)) \<and>
      tags ([\<lparr>lat = NaN, lon = Fin 30, tags = []\<rparr>, \<lparr>lat = Fin 1000, lon = Fin 30, tags = []\<rparr>] ! k) =
        columns (nan_features ! k)"
    by (simp add: nan_features_def less_Suc_eq nth_Cons split: nat.splits)
  then show ?thesis
    using extract_coordinates_no_validation[of nan_features
        "[\<lparr>lat = NaN, lon = Fin 30, tags = []\<rparr>, \<lparr>lat = Fin 1000, lon = Fin 30, tags = []\<rparr>]"]
    by (simp add: nan_features_def)
qed

text \<open>
  A point with a NaN latitude and a point at latitude 1000 both enter the output of the
  extractor, which neither drops them nor fails.
\<close>

theorem extract_coordinates_nan_counterexample:
  "extract_coordinates nan_features =
     Inr [\<lparr>lat = NaN, lon = Fin 30, tags = []\<rparr>, \<lparr>lat = Fin 1000, lon = Fin 30, tags = []\<rparr>] \<and>
   \<not> is_fin (lat \<lparr>lat = NaN, lon = Fin 30, tags = []\<rparr>) \<and>
   flt (Fin 90) (lat \<lparr>lat = Fin 1000, lon = Fin 30, tags = []\<rparr>)"
  by (simp add: nan_features_def extract_coordinates_def extract_row_def)

text \<open>
  Claim C2 at the empty input. With no feature in the region the code returns the
  dictionary with the status \<open>no_data\<close> and a message only: the keys \<open>nodes_count\<close>,
  \<open>edges_count\<close> and \<open>total_distance\<close> are absent, and the status is not \<open>ok\<close>, which
  the repository's own test of the empty case expects.
\<close>

theorem generate_logistics_mst_empty_input:
  "generate_logistics_mst rnd empty_provider demo_bbox ''auto'' ''cache'' None = Inr NoData \<and>
   status NoData = ''no_data'' \<and>
   get_nodes_count NoData = None \<and> get_edges_count NoData = None \<and>
   get_total_distance NoData = None"
  by (simp add: generate_logistics_mst_def load_logistics_features_def get_default_tags_def
      lower_def lower_char_def empty_provider_def demo_provider_def Let_def)

lemma demo_weight_fin: "demo_weight = Fin (fval demo_weight)"
proof -
  obtain d where d: "demo_weight = Fin d" using demo_weight(2) by blast
  show ?thesis unfolding d by simp
qed

lemma demo_weight_bounds: "111085 \<le> fval demo_weight" "fval demo_weight \<le> 111268"
proof -
  obtain d where d: "demo_weight = Fin d" "111085 \<le> d" "d \<le> 111268"
    using demo_weight(2) by blast
  show "111085 \<le> fval demo_weight" "fval demo_weight \<le> 111268"
    unfolding d(1) using d(2,3) by simp_all
qed

lemma haversine_rounded:
  "haversine rnd (Fin lat1) (Fin lon1) (Fin lat2) (Fin lon2) = Inr w \<Longrightarrow> \<exists>y. w = Fin (rnd y)"
  by (auto simp: haversine_Fin Let_def split: if_splits)

lemma demo_weight_round: "round64 (fval demo_weight) = fval demo_weight"
proof -
  obtain y where y: "demo_weight = Fin (round64 y)"
    using haversine_rounded[OF demo_weight(1)] by blast
  show ?thesis unfolding y by (simp add: round64_idem)
qed

lemma demo_extract: "extract_coordinates demo_features = Inr demo_coords"
  by (simp add: demo_features_def demo_coords_def extract_coordinates_def extract_row_def)

lemma demo_graph:
  "build_geodesic_graph round64 demo_coords = Inr demo_graph"
  by (simp add: demo_graph_def build_geodesic_graph_def row_pairs_def iterrows_def enumerate_eq_zip
      demo_coords_def pair_edge_def demo_weight(1) upt_rec)

lemma demo_mst_graph:
  "build_mst_graph demo_graph = Inr demo_mst"
proof -
  have "demo_weight \<noteq> NaN" using demo_weight(2) by auto
  then show ?thesis
    by (simp add: demo_graph_def build_mst_graph_def minimum_spanning_tree_def sort_edges_def
        uf_init_def demo_mst_def isna_def)
qed

lemma demo_midpoint: "midpoint round64 (demo_coords ! 0) (demo_coords ! 1) = (Fin (1 / 2), Fin 0)"
  by (simp add: midpoint_def demo_coords_def round64_one round64_zero round64_half)

lemma round64_numerals: "round64 120 = 120" "round64 70000 = 70000" "round64 120000 = 120000"
  using round64_of_int[of 120] round64_of_int[of 70000] round64_of_int[of 120000] by simp_all

lemma demo_pd_sum: "pd_sum round64 [Fin 70000, Fin 50000] = Fin 120000"
  by (simp add: pd_sum_def round64_numerals)

lemma demo_visualize:
  "visualize_mst_map round64 demo_provider demo_coords demo_mst demo_bbox ''auto'' f =
     Inr (f, [CircleMarker (Fin 0) (Fin 0), CircleMarker (Fin 1) (Fin 0),
              PolyLine (Fin 0, Fin 0) (Fin 1, Fin 0) ''blue'',
              DistanceLabel (Fin (1 / 2), Fin 0) (Fin 120) ''white'',
              DistanceLabel (Fin (1 / 2), Fin 0) (Fin 120) ''white''])"
proof -
  have "draw_edge round64 demo_provider () demo_coords [10, 20] (0, 1, demo_weight) =
      Inr [PolyLine (Fin 0, Fin 0) (Fin 1, Fin 0) ''blue'',
           DistanceLabel (Fin (1 / 2), Fin 0) (Fin 120) ''white'',
           DistanceLabel (Fin (1 / 2), Fin 0) (Fin 120) ''white'']"
    by (simp add: draw_edge_def iloc_def draw_refined_def demo_provider_def pd_sum_def
        round64_numerals Let_def demo_coords_def midpoint_def round64_one round64_zero round64_half)
  then show ?thesis
    by (simp add: visualize_mst_map_def demo_provider_def demo_mst_def Let_def
        point_markers_def isna_def demo_coords_def)
qed

lemma demo_load:
  "load_logistics_features demo_provider demo_bbox ''auto'' cp = Inr demo_features"
  by (simp add: load_logistics_features_def get_default_tags_def lower_def lower_char_def
      demo_provider_def)

lemma demo_points:
  "make_points demo_coords =
      [\<lparr>p_lat = Fin 0, p_lon = Fin 0, p_tags = [(''name'', Some ''A'')]\<rparr>,
       \<lparr>p_lat = Fin 1, p_lon = Fin 0, p_tags = [(''name'', None)]\<rparr>]"
  by (simp add: make_points_def demo_coords_def clean_tags_def)

lemma demo_collect:
  "collect_edges round64 (g_edges demo_mst) =
      ([\<lparr>from_index = 0, to_index = 1, distance = demo_weight\<rparr>], demo_weight)"
proof -
  have "fadd round64 (Fin 0) demo_weight = demo_weight"
    using demo_weight_round by (subst (1 2) demo_weight_fin) simp
  then show ?thesis by (simp add: collect_edges_def demo_mst_def)
qed

lemma demo_run_aux:
  assumes "load_logistics_features p demo_bbox ''auto'' (path_join ''cache'' (''logistics_'' @ ''auto'' @ ''_features.geojson'')) = Inr demo_features"
    and "visualize_mst_map round64 p demo_coords demo_mst demo_bbox ''auto'' ''cache/logistics_auto_mst.html'' = Inr (''cache/logistics_auto_mst.html'', items)"
  shows "generate_logistics_mst round64 p demo_bbox ''auto'' ''cache'' None = Inr (Success demo_result)"
proof -
  have ne: "demo_features \<noteq> []" by (simp add: demo_features_def)
  have pj: "path_join ''cache'' (''logistics_'' @ ''auto'' @ ''_mst.html'') = ''cache/logistics_auto_mst.html''"
    by (simp add: path_join_def)
  show ?thesis
    unfolding generate_logistics_mst_def Let_def
    by (simp only: assms pj bindE_Inr ne if_False demo_extract demo_graph demo_mst_graph
        demo_points demo_collect option.case prod.case demo_result_def list.size)
      simp
qed

lemma demo_run:
  "generate_logistics_mst round64 demo_provider demo_bbox ''auto'' ''cache'' None = Inr (Success demo_result)"
  by (rule demo_run_aux[OF demo_load demo_visualize])

lemma collect_edges_foldl:
  "foldl (\<lambda>(acc, total) (u, v, w).
              (acc @ [\<lparr>from_index = u, to_index = v, distance = w\<rparr>], fadd rnd total w)) (acc, t) es =
     (acc @ map mk_edge es, foldl (fadd rnd) t (map distance (map mk_edge es)))"
  by (induction es arbitrary: acc t) (auto simp: mk_edge_def)

lemma collect_edges_eq:
  "collect_edges rnd es = (map mk_edge es, foldl (fadd rnd) (Fin 0) (map distance (map mk_edge es)))"
  unfolding collect_edges_def collect_edges_foldl by simp

lemma set_insort_edge: "set (insort_edge e xs) = insert e (set xs)"
  by (induction xs) auto

lemma set_sort_edges: "set (sort_edges es) = set es"
  unfolding sort_edges_def by (induction es) (simp_all add: set_insort_edge)

lemma set_kruskal_edges: "set (kruskal_edges lab es) \<subseteq> set es"
  by (induction lab es rule: kruskal_edges.induct) auto

lemma build_mst_graph_Inr:
  assumes "build_mst_graph G = Inr mst"
  shows "g_nodes mst = g_nodes G" and "set (g_edges mst) \<subseteq> set (g_edges G)"
    and "g_edges mst = kruskal_edges uf_init (sort_edges (g_edges G))"
  using assms set_kruskal_edges[of uf_init "sort_edges (g_edges G)"]
  by (auto simp: build_mst_graph_def minimum_spanning_tree_def set_sort_edges split: if_splits)

lemma extract_coordinates_length: "extract_coordinates gdf = Inr c \<Longrightarrow> length c = length gdf"
  by (simp add: extract_coordinates_def mapE_Inr_iff)

lemma visualize_mst_map_path:
  "visualize_mst_map rnd p c mst bb mode f = Inr (path, drawn) \<Longrightarrow> path = f"
  by (auto simp: visualize_mst_map_def Let_def bindE_eq_Inr split: if_splits)

lemma visualize_InrD:
  assumes "visualize_mst_map rnd p c mst bb mode f = Inr (path, items)"
  shows "\<exists>g ns drawn. graph_from_bbox p bb = Inr g \<and>
     nearest_nodes p g (map lon c) (map lat c) = Inr ns \<and> length ns = length c \<and>
     mapE (draw_edge rnd p g c ns) (g_edges mst) = Inr drawn \<and>
     path = f \<and> items = point_markers c @ concat drawn"
  using assms unfolding visualize_mst_map_def Let_def
  apply (elim bindE_InrE)
  apply (simp split: if_splits)
  apply (elim bindE_InrE)
  apply auto
  done

lemma generate_SuccessD:
  assumes "generate_logistics_mst rnd p bb mode cd out0 = Inr (Success r)"
  shows "\<exists>gdf c G mst path drawn.
     load_logistics_features p bb mode (path_join cd (''logistics_'' @ mode @ ''_features.geojson'')) = Inr gdf \<and>
     gdf \<noteq> [] \<and> extract_coordinates gdf = Inr c \<and> build_geodesic_graph rnd c = Inr G \<and>
     build_mst_graph G = Inr mst \<and>
     visualize_mst_map rnd p c mst bb mode path = Inr (path, drawn) \<and>
     r = \<lparr>nodes_count = length c, edges_count = length (g_edges mst),
          total_distance = foldl (fadd rnd) (Fin 0) (map distance (map mk_edge (g_edges mst))),
          points = make_points c, edges = map mk_edge (g_edges mst),
          map_path = path, r_mode = mode, r_bbox = bb\<rparr>"
  using assms unfolding generate_logistics_mst_def Let_def
  apply (elim bindE_InrE)
  subgoal for gdf
    apply (rule exI[of _ gdf])
    apply (simp split: if_splits)
    apply (elim bindE_InrE)
    apply (clarsimp simp: collect_edges_eq)
    apply (frule visualize_mst_map_path)
    apply hypsubst
    apply (intro exI conjI)
         apply assumption+
    apply (simp_all add: make_points_def)
    done
  done

text \<open>
  Claim C10. Every successful result of \<open>generate_logistics_mst\<close> (status \<open>ok\<close>, which
  only a non-empty input gives) is consistent: \<open>nodes_count\<close> is the length of the points
  list, \<open>edges_count\<close> the length of the edges list, \<open>total_distance\<close> the sum of the
  distances of the listed edges, added from \<open>0.0\<close> in the order of the list, and the two
  indices of every edge are distinct and below \<open>nodes_count\<close>.
\<close>

theorem generate_logistics_mst_consistent:
  assumes "generate_logistics_mst rnd p bb mode cache_dir output_file = Inr (Success r)"
  shows "nodes_count r = length (points r) \<and> edges_count r = length (edges r) \<and>
     total_distance r = foldl (fadd rnd) (Fin 0) (map distance (edges r)) \<and>
     0 < nodes_count r \<and>
     (\<forall>e \<in> set (edges r). from_index e \<noteq> to_index e \<and>
         from_index e < nodes_count r \<and> to_index e < nodes_count r)"
proof -
  from generate_SuccessD[OF assms] obtain gdf c G mst path drawn where
    ne: "gdf \<noteq> []" and c: "extract_coordinates gdf = Inr c" and G: "build_geodesic_graph rnd c = Inr G"
    and mst: "build_mst_graph G = Inr mst"
    and vis: "visualize_mst_map rnd p c mst bb mode path = Inr (path, drawn)"
    and r: "r = \<lparr>nodes_count = length c, edges_count = length (g_edges mst),
          total_distance = foldl (fadd rnd) (Fin 0) (map distance (map mk_edge (g_edges mst))),
          points = make_points c, edges = map mk_edge (g_edges mst),
          map_path = path, r_mode = mode, r_bbox = bb\<rparr>"
    by blast
  have idx: "from_index e \<noteq> to_index e \<and> from_index e < length c \<and> to_index e < length c"
    if "e \<in> set (edges r)" for e
  proof -
    from that obtain u v w where e: "e = mk_edge (u, v, w)" and m: "(u, v, w) \<in> set (g_edges mst)"
      by (auto simp: r)
    from m build_mst_graph_Inr(2)[OF mst] have "(u, v, w) \<in> set (g_edges G)" by blast
    from build_geodesic_graph_edges(3)[OF G this] show ?thesis by (simp add: e mk_edge_def)
  qed
  have "0 < length c" using ne extract_coordinates_length[OF c] by simp
  then show ?thesis using idx by (simp add: r make_points_def)
qed

theorem generate_logistics_mst_consistent_witness:
  "\<exists>r. generate_logistics_mst round64 demo_provider demo_bbox ''auto'' ''cache'' None = Inr (Success r) \<and>
       nodes_count r = 2 \<and> length (points r) = 2 \<and> edges_count r = 1 \<and> length (edges r) = 1 \<and>
       total_distance r = foldl (fadd round64) (Fin 0) (map distance (edges r))"
  using generate_logistics_mst_consistent[OF demo_run] demo_run by (simp add: demo_result_def)


lemma draw_edge_fallback:
  assumes "routing_failed p g (ns ! u) (ns ! v)"
    and "haversine rnd (lat (c ! u)) (lon (c ! u)) (lat (c ! v)) (lon (c ! v)) = Inr h"
    and "u < length c" "v < length c" "length ns = length c"
  shows "draw_edge rnd p g c ns (u, v, w) =
     Inr [PolyLine (lat (c ! u), lon (c ! u)) (lat (c ! v), lon (c ! v)) ''gray'',
          DistanceLabel (midpoint rnd (c ! u) (c ! v)) (fdivc rnd h 1000) ''gray'']"
  using assms
  by (auto simp: routing_failed_def draw_edge_def iloc_def draw_fallback_def Let_def
      split: sum.splits option.splits)


lemma routing_failed_not_found:
  "routing_failed p g a b \<Longrightarrow> shortest_path p g a b = Inr (Some nodes) \<Longrightarrow> \<not> 1 < length nodes"
  by (simp add: routing_failed_def)

lemma draw_edge_range:
  assumes "draw_edge rnd p g c ns (u, v, w) = Inr items" "length ns = length c"
  shows "u < length c" "v < length c"
  using assms by (auto simp: draw_edge_def iloc_def bindE_eq_Inr split: if_splits)

lemma draw_edge_failedD:
  assumes "draw_edge rnd p g c ns (u, v, w) = Inr items" "length ns = length c"
    and "routing_failed p g (ns ! u) (ns ! v)"
  shows "\<exists>h. haversine rnd (lat (c ! u)) (lon (c ! u)) (lat (c ! v)) (lon (c ! v)) = Inr h \<and>
     items = [PolyLine (lat (c ! u), lon (c ! u)) (lat (c ! v), lon (c ! v)) ''gray'',
              DistanceLabel (midpoint rnd (c ! u) (c ! v)) (fdivc rnd h 1000) ''gray'']"
proof -
  note r = draw_edge_range[OF assms(1,2)]
  have "draw_fallback rnd c u v = Inr items"
    using assms r
    by (auto simp: routing_failed_def draw_edge_def iloc_def Let_def split: sum.splits option.splits)
  then show ?thesis using r
    by (auto simp: draw_fallback_def iloc_def Let_def bindE_eq_Inr)
qed

lemma draw_edge_foundD:
  assumes "draw_edge rnd p g c ns (u, v, w) = Inr items" "length ns = length c"
    and "shortest_path p g (ns ! u) (ns ! v) = Inr (Some nodes)" "1 < length nodes"
  shows "\<exists>lens. route_lengths p g nodes = Inr lens \<and>
     items = [PolyLine (lat (c ! u), lon (c ! u)) (lat (c ! v), lon (c ! v)) ''blue'',
              DistanceLabel (midpoint rnd (c ! u) (c ! v)) (fdivc rnd (pd_sum rnd lens) 1000) ''white'',
              DistanceLabel (midpoint rnd (c ! u) (c ! v)) (fdivc rnd (pd_sum rnd lens) 1000) ''white'']"
proof -
  note r = draw_edge_range[OF assms(1,2)]
  have "draw_refined rnd p g c u v nodes = Inr items"
    using assms r by (simp add: draw_edge_def iloc_def Let_def)
  then show ?thesis using r
    by (auto simp: draw_refined_def iloc_def Let_def bindE_eq_Inr)
qed

text \<open>
  Claim C1, as the code has it. In every successful run, for every edge \<open>(u, v, w)\<close> of
  the spanning tree, the edge sequence that \<open>generate_logistics_mst\<close> returns carries
  the geodesic weight, whether or not routing succeeds: the returned edge at the same
  position has the end points \<open>u\<close>, \<open>v\<close> and the distance \<open>w\<close>, the haversine
  distance of the two points, and an edge has no status. The outcome of routing shows on
  the map only. When the routing query fails (it raises, finds no path or returns fewer
  than two nodes) the edge is drawn in gray and labelled with \<open>w\<close> in kilometers; when
  the road network yields a path of at least two nodes between the snapped end points,
  the edge is drawn in blue and labelled with the sum of the segment lengths of the path,
  in kilometers, and that sum does not enter the returned result.
\<close>

theorem generate_logistics_mst_geodesic_weights:
  assumes "generate_logistics_mst rnd p bb mode cache_dir output_file = Inr (Success r)"
  shows "\<exists>gdf c G mst g ns drawn.
     load_logistics_features p bb mode
       (path_join cache_dir (''logistics_'' @ mode @ ''_features.geojson'')) = Inr gdf \<and>
     extract_coordinates gdf = Inr c \<and> build_geodesic_graph rnd c = Inr G \<and>
     build_mst_graph G = Inr mst \<and>
     graph_from_bbox p bb = Inr g \<and> nearest_nodes p g (map lon c) (map lat c) = Inr ns \<and>
     visualize_mst_map rnd p c mst bb mode (map_path r) =
       Inr (map_path r, point_markers c @ concat drawn) \<and>
     length (edges r) = length (g_edges mst) \<and> length drawn = length (g_edges mst) \<and>
     (\<forall>k<length (g_edges mst). case g_edges mst ! k of (u, v, w) \<Rightarrow>
        edges r ! k = \<lparr>from_index = u, to_index = v, distance = w\<rparr> \<and>
        haversine rnd (lat (c ! u)) (lon (c ! u)) (lat (c ! v)) (lon (c ! v)) = Inr w \<and>
        (routing_failed p g (ns ! u) (ns ! v) \<longrightarrow>
           drawn ! k =
             [PolyLine (lat (c ! u), lon (c ! u)) (lat (c ! v), lon (c ! v)) ''gray'',
              DistanceLabel (midpoint rnd (c ! u) (c ! v)) (fdivc rnd w 1000) ''gray'']) \<and>
        (\<forall>nodes. shortest_path p g (ns ! u) (ns ! v) = Inr (Some nodes) \<and> 1 < length nodes \<longrightarrow>
           (\<exists>lens. route_lengths p g nodes = Inr lens \<and>
              drawn ! k =
                [PolyLine (lat (c ! u), lon (c ! u)) (lat (c ! v), lon (c ! v)) ''blue'',
                 DistanceLabel (midpoint rnd (c ! u) (c ! v)) (fdivc rnd (pd_sum rnd lens) 1000) ''white'',
                 DistanceLabel (midpoint rnd (c ! u) (c ! v)) (fdivc rnd (pd_sum rnd lens) 1000) ''white''])))"
proof -
  from generate_SuccessD[OF assms] obtain gdf c G mst path items where
    l: "load_logistics_features p bb mode
          (path_join cache_dir (''logistics_'' @ mode @ ''_features.geojson'')) = Inr gdf"
    and c: "extract_coordinates gdf = Inr c" and G: "build_geodesic_graph rnd c = Inr G"
    and mst: "build_mst_graph G = Inr mst"
    and vis: "visualize_mst_map rnd p c mst bb mode path = Inr (path, items)"
    and r: "r = \<lparr>nodes_count = length c, edges_count = length (g_edges mst),
          total_distance = foldl (fadd rnd) (Fin 0) (map distance (map mk_edge (g_edges mst))),
          points = make_points c, edges = map mk_edge (g_edges mst),
          map_path = path, r_mode = mode, r_bbox = bb\<rparr>"
    by blast
  from visualize_InrD[OF vis] obtain g ns drawn where
    g: "graph_from_bbox p bb = Inr g"
    and ns: "nearest_nodes p g (map lon c) (map lat c) = Inr ns" and len: "length ns = length c"
    and dr: "mapE (draw_edge rnd p g c ns) (g_edges mst) = Inr drawn"
    and items: "items = point_markers c @ concat drawn"
    by blast
  from dr have dlen: "length drawn = length (g_edges mst)"
    and dnth: "\<And>k. k < length (g_edges mst) \<Longrightarrow> draw_edge rnd p g c ns (g_edges mst ! k) = Inr (drawn ! k)"
    by (simp_all add: mapE_Inr_iff)
  have mp: "map_path r = path" and er: "edges r = map mk_edge (g_edges mst)" by (simp_all add: r)
  have edge: "case g_edges mst ! k of (u, v, w) \<Rightarrow>
        edges r ! k = \<lparr>from_index = u, to_index = v, distance = w\<rparr> \<and>
        haversine rnd (lat (c ! u)) (lon (c ! u)) (lat (c ! v)) (lon (c ! v)) = Inr w \<and>
        (routing_failed p g (ns ! u) (ns ! v) \<longrightarrow>
           drawn ! k =
             [PolyLine (lat (c ! u), lon (c ! u)) (lat (c ! v), lon (c ! v)) ''gray'',
              DistanceLabel (midpoint rnd (c ! u) (c ! v)) (fdivc rnd w 1000) ''gray'']) \<and>
        (\<forall>nodes. shortest_path p g (ns ! u) (ns ! v) = Inr (Some nodes) \<and> 1 < length nodes \<longrightarrow>
           (\<exists>lens. route_lengths p g nodes = Inr lens \<and>
              drawn ! k =
                [PolyLine (lat (c ! u), lon (c ! u)) (lat (c ! v), lon (c ! v)) ''blue'',
                 DistanceLabel (midpoint rnd (c ! u) (c ! v)) (fdivc rnd (pd_sum rnd lens) 1000) ''white'',
                 DistanceLabel (midpoint rnd (c ! u) (c ! v)) (fdivc rnd (pd_sum rnd lens) 1000) ''white'']))"
    if k: "k < length (g_edges mst)" for k
  proof -
    obtain u v w where x: "g_edges mst ! k = (u, v, w)" by (cases "g_edges mst ! k")
    have "(u, v, w) \<in> set (g_edges mst)" using k x by (metis nth_mem)
    with build_mst_graph_Inr(2)[OF mst] have "(u, v, w) \<in> set (g_edges G)" by blast
    from build_geodesic_graph_edges(3)[OF G this]
    have h: "haversine rnd (lat (c ! u)) (lon (c ! u)) (lat (c ! v)) (lon (c ! v)) = Inr w"
      by simp
    have d: "draw_edge rnd p g c ns (u, v, w) = Inr (drawn ! k)" using dnth[OF k] by (simp add: x)
    have e: "edges r ! k = \<lparr>from_index = u, to_index = v, distance = w\<rparr>"
      using k by (simp add: er x mk_edge_def)
    have f: "drawn ! k =
             [PolyLine (lat (c ! u), lon (c ! u)) (lat (c ! v), lon (c ! v)) ''gray'',
              DistanceLabel (midpoint rnd (c ! u) (c ! v)) (fdivc rnd w 1000) ''gray'']"
      if "routing_failed p g (ns ! u) (ns ! v)"
      using draw_edge_failedD[OF d len that] h by simp
    have b: "\<exists>lens. route_lengths p g nodes = Inr lens \<and>
              drawn ! k =
                [PolyLine (lat (c ! u), lon (c ! u)) (lat (c ! v), lon (c ! v)) ''blue'',
                 DistanceLabel (midpoint rnd (c ! u) (c ! v)) (fdivc rnd (pd_sum rnd lens) 1000) ''white'',
                 DistanceLabel (midpoint rnd (c ! u) (c ! v)) (fdivc rnd (pd_sum rnd lens) 1000) ''white'']"
      if "shortest_path p g (ns ! u) (ns ! v) = Inr (Some nodes) \<and> 1 < length nodes" for nodes
      using draw_edge_foundD[OF d len] that by blast
    show ?thesis unfolding x prod.case using e h f b by blast
  qed
  have v: "visualize_mst_map rnd p c mst bb mode (map_path r) =
       Inr (map_path r, point_markers c @ concat drawn)"
    using vis by (simp add: mp items)
  have el: "length (edges r) = length (g_edges mst)" by (simp add: er)
  show ?thesis
    apply (rule exI[of _ gdf], rule exI[of _ c], rule exI[of _ G], rule exI[of _ mst])
    apply (rule exI[of _ g], rule exI[of _ ns], rule exI[of _ drawn])
    apply (intro conjI allI impI l c G mst g ns v el dlen)
    apply (rule edge)
    apply assumption
    done
qed

lemma nopath_load:
  "load_logistics_features nopath_provider demo_bbox ''auto'' cp = Inr demo_features"
  by (simp add: load_logistics_features_def get_default_tags_def lower_def lower_char_def
      demo_provider_def nopath_provider_def)

lemma nopath_failed: "routing_failed nopath_provider () a b"
  by (simp add: routing_failed_def nopath_provider_def demo_provider_def)

lemma demo_fallback_edge:
  assumes "routing_failed p () 10 20"
  shows "draw_edge round64 p () demo_coords [10, 20] (0, 1, demo_weight) =
      Inr [PolyLine (Fin 0, Fin 0) (Fin 1, Fin 0) ''gray'',
           DistanceLabel (Fin (1 / 2), Fin 0) (fdivc round64 demo_weight 1000) ''gray'']"
proof -
  have h: "haversine round64 (lat (demo_coords ! 0)) (lon (demo_coords ! 0))
      (lat (demo_coords ! 1)) (lon (demo_coords ! 1)) = Inr demo_weight"
    by (simp add: demo_coords_def demo_weight(1))
  have r: "routing_failed p () ([10, 20] ! 0) ([10, 20] ! 1)" using assms by simp
  have l: "(0::nat) < length demo_coords" "(1::nat) < length demo_coords"
    "length [10, 20 :: nat] = length demo_coords"
    by (simp_all add: demo_coords_def)
  show ?thesis
    unfolding draw_edge_fallback[OF r h l, of demo_weight] demo_midpoint
    by (simp add: demo_coords_def)
qed

lemma demo_fallback_visualize:
  assumes "graph_from_bbox p demo_bbox = Inr ()"
    and "nearest_nodes p () (map lon demo_coords) (map lat demo_coords) = Inr [10, 20]"
    and "routing_failed p () 10 20"
  shows "visualize_mst_map round64 p demo_coords demo_mst demo_bbox ''auto'' f =
     Inr (f, [CircleMarker (Fin 0) (Fin 0), CircleMarker (Fin 1) (Fin 0),
              PolyLine (Fin 0, Fin 0) (Fin 1, Fin 0) ''gray'',
              DistanceLabel (Fin (1 / 2), Fin 0) (fdivc round64 demo_weight 1000) ''gray''])"
proof -
  have m: "point_markers demo_coords = [CircleMarker (Fin 0) (Fin 0), CircleMarker (Fin 1) (Fin 0)]"
    by (simp add: point_markers_def demo_coords_def isna_def)
  have l: "length [10, 20 :: nat] = length demo_coords" by (simp add: demo_coords_def)
  have e: "g_edges demo_mst = [(0, 1, demo_weight)]" by (simp add: demo_mst_def)
  show ?thesis
    unfolding visualize_mst_map_def Let_def
    by (simp only: assms(1,2) bindE_Inr l if_True e mapE.simps demo_fallback_edge[OF assms(3)] m)
      simp
qed

lemma nopath_visualize:
  "visualize_mst_map round64 nopath_provider demo_coords demo_mst demo_bbox ''auto'' f =
     Inr (f, [CircleMarker (Fin 0) (Fin 0), CircleMarker (Fin 1) (Fin 0),
              PolyLine (Fin 0, Fin 0) (Fin 1, Fin 0) ''gray'',
              DistanceLabel (Fin (1 / 2), Fin 0) (fdivc round64 demo_weight 1000) ''gray''])"
  by (rule demo_fallback_visualize[OF _ _ nopath_failed])
    (simp_all add: nopath_provider_def demo_provider_def)

lemma nopath_run:
  "generate_logistics_mst round64 nopath_provider demo_bbox ''auto'' ''cache'' None =
     Inr (Success demo_result)"
  by (rule demo_run_aux[OF nopath_load nopath_visualize])

theorem generate_logistics_mst_geodesic_weights_witness:
  "generate_logistics_mst round64 nopath_provider demo_bbox ''auto'' ''cache'' None =
     Inr (Success demo_result) \<and>
   routing_failed nopath_provider () 10 20 \<and>
   edges demo_result = [\<lparr>from_index = 0, to_index = 1, distance = demo_weight\<rparr>] \<and>
   (\<exists>gdf c G mst g ns drawn.
     load_logistics_features nopath_provider demo_bbox ''auto''
       (path_join ''cache'' (''logistics_'' @ ''auto'' @ ''_features.geojson'')) = Inr gdf \<and>
     extract_coordinates gdf = Inr c \<and> build_geodesic_graph round64 c = Inr G \<and>
     build_mst_graph G = Inr mst \<and>
     graph_from_bbox nopath_provider demo_bbox = Inr g \<and> nearest_nodes nopath_provider g (map lon c) (map lat c) = Inr ns \<and>
     visualize_mst_map round64 nopath_provider c mst demo_bbox ''auto'' (map_path demo_result) =
       Inr (map_path demo_result, point_markers c @ concat drawn) \<and>
     length (edges demo_result) = length (g_edges mst) \<and> length drawn = length (g_edges mst) \<and>
     (\<forall>k<length (g_edges mst). case g_edges mst ! k of (u, v, w) \<Rightarrow>
        edges demo_result ! k = \<lparr>from_index = u, to_index = v, distance = w\<rparr> \<and>
        haversine round64 (lat (c ! u)) (lon (c ! u)) (lat (c ! v)) (lon (c ! v)) = Inr w \<and>
        (routing_failed nopath_provider g (ns ! u) (ns ! v) \<longrightarrow>
           drawn ! k =
             [PolyLine (lat (c ! u), lon (c ! u)) (lat (c ! v), lon (c ! v)) ''gray'',
              DistanceLabel (midpoint round64 (c ! u) (c ! v)) (fdivc round64 w 1000) ''gray'']) \<and>
        (\<forall>nodes. shortest_path nopath_provider g (ns ! u) (ns ! v) = Inr (Some nodes) \<and> 1 < length nodes \<longrightarrow>
           (\<exists>lens. route_lengths nopath_provider g nodes = Inr lens \<and>
              drawn ! k =
                [PolyLine (lat (c ! u), lon (c ! u)) (lat (c ! v), lon (c ! v)) ''blue'',
                 DistanceLabel (midpoint round64 (c ! u) (c ! v)) (fdivc round64 (pd_sum round64 lens) 1000) ''white'',
                 DistanceLabel (midpoint round64 (c ! u) (c ! v)) (fdivc round64 (pd_sum round64 lens) 1000) ''white'']))))"
proof (intro conjI)
  show "generate_logistics_mst round64 nopath_provider demo_bbox ''auto'' ''cache'' None =
     Inr (Success demo_result)"
    by (rule nopath_run)
  show "routing_failed nopath_provider () 10 20" by (rule nopath_failed)
  show "edges demo_result = [\<lparr>from_index = 0, to_index = 1, distance = demo_weight\<rparr>]"
    by (simp add: demo_result_def)
  show "\<exists>gdf c G mst g ns drawn.
     load_logistics_features nopath_provider demo_bbox ''auto''
       (path_join ''cache'' (''logistics_'' @ ''auto'' @ ''_features.geojson'')) = Inr gdf \<and>
     extract_coordinates gdf = Inr c \<and> build_geodesic_graph round64 c = Inr G \<and>
     build_mst_graph G = Inr mst \<and>
     graph_from_bbox nopath_provider demo_bbox = Inr g \<and> nearest_nodes nopath_provider g (map lon c) (map lat c) = Inr ns \<and>
     visualize_mst_map round64 nopath_provider c mst demo_bbox ''auto'' (map_path demo_result) =
       Inr (map_path demo_result, point_markers c @ concat drawn) \<and>
     length (edges demo_result) = length (g_edges mst) \<and> length drawn = length (g_edges mst) \<and>
     (\<forall>k<length (g_edges mst). case g_edges mst ! k of (u, v, w) \<Rightarrow>
        edges demo_result ! k = \<lparr>from_index = u, to_index = v, distance = w\<rparr> \<and>
        haversine round64 (lat (c ! u)) (lon (c ! u)) (lat (c ! v)) (lon (c ! v)) = Inr w \<and>
        (routing_failed nopath_provider g (ns ! u) (ns ! v) \<longrightarrow>
           drawn ! k =
             [PolyLine (lat (c ! u), lon (c ! u)) (lat (c ! v), lon (c ! v)) ''gray'',
              DistanceLabel (midpoint round64 (c ! u) (c ! v)) (fdivc round64 w 1000) ''gray'']) \<and>
        (\<forall>nodes. shortest_path nopath_provider g (ns ! u) (ns ! v) = Inr (Some nodes) \<and> 1 < length nodes \<longrightarrow>
           (\<exists>lens. route_lengths nopath_provider g nodes = Inr lens \<and>
              drawn ! k =
                [PolyLine (lat (c ! u), lon (c ! u)) (lat (c ! v), lon (c ! v)) ''blue'',
                 DistanceLabel (midpoint round64 (c ! u) (c ! v)) (fdivc round64 (pd_sum round64 lens) 1000) ''white'',
                 DistanceLabel (midpoint round64 (c ! u) (c ! v)) (fdivc round64 (pd_sum round64 lens) 1000) ''white''])))"
    by (rule generate_logistics_mst_geodesic_weights[OF nopath_run])
qed

text \<open>
  A run in which routing succeeds with a path of three nodes and segments of 120 km in
  all: the returned edge still carries the geodesic distance of about 111 km.
\<close>

theorem generate_logistics_mst_refined_counterexample:
  "shortest_path demo_provider () 10 20 = Inr (Some [10, 15, 20]) \<and>
   route_lengths demo_provider () [10, 15, 20] = Inr [Fin 70000, Fin 50000] \<and>
   pd_sum round64 [Fin 70000, Fin 50000] = Fin 120000 \<and>
   generate_logistics_mst round64 demo_provider demo_bbox ''auto'' ''cache'' None =
     Inr (Success demo_result) \<and>
   edges demo_result = [\<lparr>from_index = 0, to_index = 1, distance = demo_weight\<rparr>] \<and>
   total_distance demo_result = demo_weight \<and>
   haversine round64 (Fin 0) (Fin 0) (Fin 1) (Fin 0) = Inr demo_weight \<and>
   demo_weight \<noteq> Fin 120000 \<and>
   flt demo_weight (Fin 120000)"
proof -
  have "flt demo_weight (Fin 120000)" "demo_weight \<noteq> Fin 120000"
    using demo_weight_bounds by (subst demo_weight_fin, simp)+
  then show ?thesis
    using demo_run demo_pd_sum demo_weight(1)
    by (simp add: demo_provider_def demo_result_def)
qed

lemma visualize_outage:
  "graph_from_bbox p bb = Inl e \<Longrightarrow> visualize_mst_map rnd p c mst bb mode f = Inl e"
  by (simp add: visualize_mst_map_def)

text \<open>
  Claim C3, as the code has it. The download of the road network is outside any
  \<open>try\<close>: when it fails, \<open>visualize_mst_map\<close> raises the provider's error, the
  pipeline returns no result with status \<open>ok\<close>, and when the stages before it have
  succeeded on a non-empty input \<open>generate_logistics_mst\<close> raises that error.
\<close>

theorem provider_outage_propagates:
  assumes "graph_from_bbox p bb = Inl e"
  shows "visualize_mst_map rnd p coords mst bb mode f = Inl e \<and>
     (\<forall>r. generate_logistics_mst rnd p bb mode cache_dir output_file \<noteq> Inr (Success r)) \<and>
     (\<forall>gdf c G t.
        load_logistics_features p bb mode
          (path_join cache_dir (''logistics_'' @ mode @ ''_features.geojson'')) = Inr gdf \<and>
        gdf \<noteq> [] \<and> extract_coordinates gdf = Inr c \<and> build_geodesic_graph rnd c = Inr G \<and>
        build_mst_graph G = Inr t \<longrightarrow>
        generate_logistics_mst rnd p bb mode cache_dir output_file = Inl e)"
proof (intro conjI allI impI)
  show "visualize_mst_map rnd p coords mst bb mode f = Inl e"
    by (rule visualize_outage[OF assms])
next
  fix r
  show "generate_logistics_mst rnd p bb mode cache_dir output_file \<noteq> Inr (Success r)"
  proof
    assume "generate_logistics_mst rnd p bb mode cache_dir output_file = Inr (Success r)"
    from generate_SuccessD[OF this] obtain c t path drawn
      where "visualize_mst_map rnd p c t bb mode path = Inr (path, drawn)" by blast
    then show False using visualize_outage[OF assms, of rnd c t mode path] by simp
  qed
next
  fix gdf c G t
  assume "load_logistics_features p bb mode
          (path_join cache_dir (''logistics_'' @ mode @ ''_features.geojson'')) = Inr gdf \<and>
        gdf \<noteq> [] \<and> extract_coordinates gdf = Inr c \<and> build_geodesic_graph rnd c = Inr G \<and>
        build_mst_graph G = Inr t"
  then show "generate_logistics_mst rnd p bb mode cache_dir output_file = Inl e"
    unfolding generate_logistics_mst_def Let_def
    by (simp add: visualize_outage[OF assms])
qed

lemma outage_load:
  "load_logistics_features outage_provider demo_bbox ''auto'' cp = Inr demo_features"
  by (simp add: load_logistics_features_def get_default_tags_def lower_def lower_char_def
      demo_provider_def outage_provider_def)

lemma outage_run:
  "generate_logistics_mst round64 outage_provider demo_bbox ''auto'' ''cache'' None =
     Inl (ExternalError ''network download failed'')"
proof -
  have ne: "demo_features \<noteq> []" by (simp add: demo_features_def)
  have v: "visualize_mst_map round64 outage_provider c t bb m f = Inl (ExternalError ''network download failed'')"
    for c t bb m f
    by (rule visualize_outage) (simp add: outage_provider_def demo_provider_def)
  show ?thesis
    unfolding generate_logistics_mst_def Let_def
    by (simp add: outage_load ne demo_extract demo_graph demo_mst_graph v)
qed

theorem provider_outage_propagates_witness:
  "graph_from_bbox outage_provider demo_bbox = Inl (ExternalError ''network download failed'') \<and>
   visualize_mst_map round64 outage_provider demo_coords demo_mst demo_bbox ''auto'' ''map.html'' =
     Inl (ExternalError ''network download failed'') \<and>
   load_logistics_features outage_provider demo_bbox ''auto''
     (path_join ''cache'' (''logistics_'' @ ''auto'' @ ''_features.geojson'')) = Inr demo_features \<and>
   generate_logistics_mst round64 outage_provider demo_bbox ''auto'' ''cache'' None =
     Inl (ExternalError ''network download failed'')"
proof -
  have g: "graph_from_bbox outage_provider demo_bbox = Inl (ExternalError ''network download failed'')"
    by (simp add: outage_provider_def demo_provider_def)
  have l: "load_logistics_features outage_provider demo_bbox ''auto''
     (path_join ''cache'' (''logistics_'' @ ''auto'' @ ''_features.geojson'')) = Inr demo_features"
    by (rule outage_load)
  have ne: "demo_features \<noteq> []" by (simp add: demo_features_def)
  from provider_outage_propagates[OF g, of round64 demo_coords demo_mst "''auto''" "''map.html''" "''cache''" None]
  have v: "visualize_mst_map round64 outage_provider demo_coords demo_mst demo_bbox ''auto'' ''map.html'' =
      Inl (ExternalError ''network download failed'')"
    and r: "\<And>gdf c G t.
        load_logistics_features outage_provider demo_bbox ''auto''
          (path_join ''cache'' (''logistics_'' @ ''auto'' @ ''_features.geojson'')) = Inr gdf \<and>
        gdf \<noteq> [] \<and> extract_coordinates gdf = Inr c \<and> build_geodesic_graph round64 c = Inr G \<and>
        build_mst_graph G = Inr t \<Longrightarrow>
        generate_logistics_mst round64 outage_provider demo_bbox ''auto'' ''cache'' None =
          Inl (ExternalError ''network download failed'')"
    by blast+
  from r[of demo_features demo_coords demo_graph demo_mst] l ne demo_extract demo_graph demo_mst_graph
  have "generate_logistics_mst round64 outage_provider demo_bbox ''auto'' ''cache'' None =
          Inl (ExternalError ''network download failed'')"
    by blast
  then show ?thesis using g v l by blast
qed

text \<open>The network download fails for two valid features: the whole pipeline fails.\<close>

theorem provider_outage_counterexample:
  "graph_from_bbox outage_provider demo_bbox = Inl (ExternalError ''network download failed'') \<and>
   features_from_bbox outage_provider demo_bbox [(''building'', OneOf [''warehouse'', ''depot'', ''industrial''])] =
     Inr demo_features \<and>
   generate_logistics_mst round64 outage_provider demo_bbox ''auto'' ''cache'' None =
     Inl (ExternalError ''network download failed'')"
  using outage_run by (simp add: outage_provider_def demo_provider_def)





section \<open>Kruskal's algorithm returns a minimum spanning tree\<close>

lemma links_sym: "(a, b) \<in> links E \<Longrightarrow> (b, a) \<in> links E"
  by (auto simp: links_def)

lemma links_mono: "A \<subseteq> B \<Longrightarrow> links A \<subseteq> links B"
  by (auto simp: links_def)

lemma links_insert: "links (insert (u, v, w) F) = insert (u, v) (insert (v, u) (links F))"
  by (auto simp: links_def)

lemma connected_refl [simp]: "connected_in E a a"
  by (simp add: connected_in_def)

lemma connected_sym: "connected_in E a b \<Longrightarrow> connected_in E b a"
  unfolding connected_in_def
  by (induction rule: rtrancl_induct) (auto intro: converse_rtrancl_into_rtrancl links_sym)

lemma connected_trans: "connected_in E a b \<Longrightarrow> connected_in E b c \<Longrightarrow> connected_in E a c"
  unfolding connected_in_def by (rule rtrancl_trans)

lemma connected_mono: "A \<subseteq> B \<Longrightarrow> connected_in A a b \<Longrightarrow> connected_in B a b"
  unfolding connected_in_def using rtrancl_mono[OF links_mono] by blast

lemma connected_edge: "(u, v, w) \<in> E \<Longrightarrow> connected_in E u v"
  unfolding connected_in_def links_def by (intro r_into_rtrancl) auto

lemma connected_via:
  assumes "\<And>u v w. (u, v, w) \<in> A \<Longrightarrow> connected_in B u v"
    and "connected_in A a b"
  shows "connected_in B a b"
  using assms(2) unfolding connected_in_def
proof (induction rule: rtrancl_induct)
  case base
  then show ?case by simp
next
  case (step y z)
  from step.hyps(2) have "connected_in B y z"
    using assms(1) connected_sym by (auto simp: links_def)
  then show ?case using step.IH connected_trans unfolding connected_in_def by blast
qed

lemma connected_insert:
  "connected_in (insert (u, v, w) F) a b \<longleftrightarrow>
     connected_in F a b \<or> (connected_in F a u \<and> connected_in F v b) \<or>
     (connected_in F a v \<and> connected_in F u b)"
proof
  assume "connected_in (insert (u, v, w) F) a b"
  then show "connected_in F a b \<or> (connected_in F a u \<and> connected_in F v b) \<or>
     (connected_in F a v \<and> connected_in F u b)"
    unfolding connected_in_def[of "insert (u, v, w) F"]
  proof (induction rule: rtrancl_induct)
    case base
    then show ?case by simp
  next
    case (step y z)
    from step.hyps(2) consider "connected_in F y z" | "y = u" "z = v" | "y = v" "z = u"
      unfolding links_insert by (auto simp: connected_in_def)
    then show ?case
    proof cases
      case 1
      then show ?thesis using step.IH connected_trans by blast
    next
      case 2
      then show ?thesis using step.IH connected_trans connected_sym connected_refl by metis
    next
      case 3
      then show ?thesis using step.IH connected_trans connected_sym connected_refl by metis
    qed
  qed
next
  have m: "connected_in F x y \<Longrightarrow> connected_in (insert (u, v, w) F) x y" for x y
    by (rule connected_mono) auto
  have e: "connected_in (insert (u, v, w) F) u v"
    by (rule connected_edge[of u v w]) simp
  assume "connected_in F a b \<or> (connected_in F a u \<and> connected_in F v b) \<or>
     (connected_in F a v \<and> connected_in F u b)"
  then show "connected_in (insert (u, v, w) F) a b"
    using m e connected_trans connected_sym by metis
qed

lemma uf_inv_init: "uf_inv uf_init {}"
  by (auto simp: uf_inv_def uf_init_def connected_in_def links_def)

lemma uf_inv_union:
  assumes "uf_inv lab F"
  shows "uf_inv (uf_union lab u v) (insert (u, v, w) F)"
  unfolding uf_inv_def
proof (intro allI)
  fix a b
  have c: "connected_in F x y \<longleftrightarrow> lab x = lab y" for x y
    using assms by (simp add: uf_inv_def)
  show "(uf_union lab u v a = uf_union lab u v b) = connected_in (insert (u, v, w) F) a b"
    unfolding connected_insert c uf_union_def by auto
qed

lemma kruskal_uf_inv:
  "uf_inv lab F \<Longrightarrow> uf_inv (kruskal_uf lab es) (F \<union> set (kruskal_edges lab es))"
proof (induction lab es arbitrary: F rule: kruskal_edges.induct)
  case (1 lab)
  then show ?case by simp
next
  case (2 lab u v w es)
  show ?case
  proof (cases "lab u = lab v")
    case True
    then show ?thesis using 2 by simp
  next
    case False
    have "uf_inv (kruskal_uf (uf_union lab u v) es)
            (insert (u, v, w) F \<union> set (kruskal_edges (uf_union lab u v) es))"
      by (rule "2.IH"(2)[OF False uf_inv_union[OF "2.prems"]])
    then show ?thesis using False by simp
  qed
qed

lemma kruskal_edges_connect:
  "uf_inv lab F \<Longrightarrow> (a, b, c) \<in> set es \<Longrightarrow>
     connected_in (F \<union> set (kruskal_edges lab es)) a b"
proof (induction lab es arbitrary: F rule: kruskal_edges.induct)
  case (1 lab)
  then show ?case by simp
next
  case (2 lab u v w es)
  show ?case
  proof (cases "lab u = lab v")
    case True
    show ?thesis
    proof (cases "(a, b, c) = (u, v, w)")
      case e: True
      have "connected_in F u v" using "2.prems"(1) True by (simp add: uf_inv_def)
      then have "connected_in (F \<union> set (kruskal_edges lab es)) u v"
        by (rule connected_mono[rotated]) simp
      then show ?thesis using e True by simp
    next
      case False
      then have "(a, b, c) \<in> set es" using "2.prems"(2) by auto
      from "2.IH"(1)[OF True "2.prems"(1) this] show ?thesis using True by simp
    qed
  next
    case False
    show ?thesis
    proof (cases "(a, b, c) = (u, v, w)")
      case e: True
      have "connected_in (F \<union> set (kruskal_edges lab ((u, v, w) # es))) u v"
        by (rule connected_edge[of u v w]) (simp add: False)
      then show ?thesis using e by simp
    next
      case ne: False
      then have "(a, b, c) \<in> set es" using "2.prems"(2) by auto
      from "2.IH"(2)[OF False uf_inv_union[OF "2.prems"(1)] this]
      show ?thesis using False by simp
    qed
  qed
qed

lemma acyclic_edges_empty: "acyclic_edges {}"
  by (simp add: acyclic_edges_def)

lemma acyclic_edges_subset: "acyclic_edges B \<Longrightarrow> A \<subseteq> B \<Longrightarrow> acyclic_edges A"
  unfolding acyclic_edges_def
proof
  fix e assume B: "\<forall>e\<in>B. \<not> connected_in (B - {e}) (fst e) (fst (snd e))" and AB: "A \<subseteq> B"
    and e: "e \<in> A"
  have "A - {e} \<subseteq> B - {e}" using AB by auto
  from connected_mono[OF this] B e AB
  show "\<not> connected_in (A - {e}) (fst e) (fst (snd e))" by blast
qed

lemma acyclic_edges_insert:
  assumes "acyclic_edges F" and "\<not> connected_in F u v"
  shows "acyclic_edges (insert (u, v, w) F)"
  unfolding acyclic_edges_def
proof
  fix e assume e: "e \<in> insert (u, v, w) F"
  have nin: "(u, v, w) \<notin> F" using assms(2) connected_edge by blast
  show "\<not> connected_in (insert (u, v, w) F - {e}) (fst e) (fst (snd e))"
  proof (cases "e = (u, v, w)")
    case True
    then have "insert (u, v, w) F - {e} = F" using nin by auto
    then show ?thesis using assms(2) True by simp
  next
    case False
    then have eF: "e \<in> F" using e by simp
    obtain a b c where abc: "e = (a, b, c)" by (cases e)
    have i: "insert (u, v, w) F - {e} = insert (u, v, w) (F - {e})" using False by auto
    have n1: "\<not> connected_in (F - {e}) a b"
      using assms(1) eF by (auto simp: acyclic_edges_def abc)
    have m: "connected_in (F - {e}) x y \<Longrightarrow> connected_in F x y" for x y
      by (rule connected_mono) auto
    have ab: "connected_in F a b" using eF by (auto simp: abc intro: connected_edge)
    have n2: "\<not> (connected_in (F - {e}) a u \<and> connected_in (F - {e}) v b)"
    proof
      assume h: "connected_in (F - {e}) a u \<and> connected_in (F - {e}) v b"
      then have "connected_in F u a" "connected_in F b v"
        using m connected_sym by blast+
      then have "connected_in F u v" using ab connected_trans by blast
      then show False using assms(2) by simp
    qed
    have n3: "\<not> (connected_in (F - {e}) a v \<and> connected_in (F - {e}) u b)"
    proof
      assume h: "connected_in (F - {e}) a v \<and> connected_in (F - {e}) u b"
      then have "connected_in F v a" "connected_in F b u"
        using m connected_sym by blast+
      then have "connected_in F v u" using ab connected_trans by blast
      then show False using assms(2) connected_sym by blast
    qed
    have "\<not> connected_in (insert (u, v, w) (F - {e})) a b"
      using n1 n2 n3 by (simp add: connected_insert)
    then show ?thesis by (simp add: i) (simp add: abc)
  qed
qed

lemma kruskal_edges_acyclic:
  "uf_inv lab F \<Longrightarrow> acyclic_edges F \<Longrightarrow> acyclic_edges (F \<union> set (kruskal_edges lab es))"
proof (induction lab es arbitrary: F rule: kruskal_edges.induct)
  case (1 lab)
  then show ?case by simp
next
  case (2 lab u v w es)
  show ?case
  proof (cases "lab u = lab v")
    case True
    then show ?thesis using 2 by simp
  next
    case False
    then have "\<not> connected_in F u v" using "2.prems"(1) by (simp add: uf_inv_def)
    then have "acyclic_edges (insert (u, v, w) F)"
      by (rule acyclic_edges_insert[OF "2.prems"(2)])
    from "2.IH"(2)[OF False uf_inv_union[OF "2.prems"(1)] this]
    show ?thesis using False by simp
  qed
qed

lemma uf_union_image:
  assumes "u < n" "v < n" "lab u \<noteq> lab v"
  shows "uf_union lab u v ` {..<n} = lab ` {..<n} - {lab v}"
proof
  show "uf_union lab u v ` {..<n} \<subseteq> lab ` {..<n} - {lab v}"
    using assms by (auto simp: uf_union_def)
  show "lab ` {..<n} - {lab v} \<subseteq> uf_union lab u v ` {..<n}"
  proof
    fix y assume "y \<in> lab ` {..<n} - {lab v}"
    then obtain x where x: "x < n" "y = lab x" "lab x \<noteq> lab v" by auto
    then have "uf_union lab u v x = y" by (simp add: uf_union_def)
    then show "y \<in> uf_union lab u v ` {..<n}" using x(1) by blast
  qed
qed

lemma uf_union_card:
  assumes "u < n" "v < n" "lab u \<noteq> lab v"
  shows "card (lab ` {..<n}) = Suc (card (uf_union lab u v ` {..<n}))"
proof -
  have "lab v \<in> lab ` {..<n}" using assms(2) by simp
  then have "Suc (card (lab ` {..<n} - {lab v})) = card (lab ` {..<n})"
    by (intro card_Suc_Diff1) simp_all
  then show ?thesis
    unfolding uf_union_image[OF assms] by simp
qed

lemma kruskal_count:
  "(\<And>u v w. (u, v, w) \<in> set es \<Longrightarrow> u < n \<and> v < n) \<Longrightarrow>
     card (lab ` {..<n}) = card (kruskal_uf lab es ` {..<n}) + length (kruskal_edges lab es)"
proof (induction lab es rule: kruskal_edges.induct)
  case (1 lab)
  then show ?case by simp
next
  case (2 lab u v w es)
  have r: "\<And>a b c. (a, b, c) \<in> set es \<Longrightarrow> a < n \<and> b < n" using "2.prems" by auto
  have uv: "u < n" "v < n" using "2.prems"[of u v w] by simp_all
  show ?case
  proof (cases "lab u = lab v")
    case True
    then show ?thesis using "2.IH"(1)[OF True r] by simp
  next
    case False
    from "2.IH"(2)[OF False r] uf_union_card[OF uv False]
    show ?thesis using False by simp
  qed
qed

lemma kruskal_edges_append:
  "kruskal_edges lab (xs @ ys) = kruskal_edges lab xs @ kruskal_edges (kruskal_uf lab xs) ys"
  by (induction lab xs rule: kruskal_edges.induct) simp_all

lemma kruskal_edges_forest:
  "uf_inv lab F \<Longrightarrow> acyclic_edges (F \<union> set ts) \<Longrightarrow> distinct ts \<Longrightarrow> set ts \<inter> F = {} \<Longrightarrow>
     kruskal_edges lab ts = ts"
proof (induction lab ts arbitrary: F rule: kruskal_edges.induct)
  case (1 lab)
  then show ?case by simp
next
  case (2 lab u v w es)
  let ?e = "(u, v, w)"
  have "\<not> connected_in (F \<union> set (?e # es) - {?e}) u v"
    using "2.prems"(2) by (auto simp: acyclic_edges_def)
  moreover have "F \<subseteq> F \<union> set (?e # es) - {?e}" using "2.prems"(4) by auto
  ultimately have "\<not> connected_in F u v" using connected_mono by blast
  then have ne: "lab u \<noteq> lab v" using "2.prems"(1) by (simp add: uf_inv_def)
  have "kruskal_edges (uf_union lab u v) es = es"
  proof (rule "2.IH"(2)[OF ne uf_inv_union[OF "2.prems"(1)]])
    show "acyclic_edges (insert ?e F \<union> set es)" using "2.prems"(2) by simp
    show "distinct es" using "2.prems"(3) by simp
    show "set es \<inter> insert ?e F = {}" using "2.prems"(3,4) by auto
  qed
  then show ?case using ne by simp
qed

lemma edge_before_wv:
  assumes "is_fin (snd (snd x))" "is_fin (snd (snd e))"
  shows "edge_before x e \<Longrightarrow> wv x \<le> wv e" and "\<not> edge_before x e \<Longrightarrow> wv e \<le> wv x"
proof -
  obtain i j a where x: "x = (i, j, Fin a)" using assms(1) by (cases x; cases "snd (snd x)") auto
  obtain i' j' b where e: "e = (i', j', Fin b)" using assms(2) by (cases e; cases "snd (snd e)") auto
  show "edge_before x e \<Longrightarrow> wv x \<le> wv e"
    by (auto simp: x e wv_def split: if_splits)
  show "\<not> edge_before x e \<Longrightarrow> wv e \<le> wv x"
    by (auto simp: x e wv_def split: if_splits)
qed

lemma length_insort_edge: "length (insort_edge e xs) = Suc (length xs)"
  by (induction xs) simp_all

lemma distinct_insort_edge: "distinct (insort_edge e xs) = (e \<notin> set xs \<and> distinct xs)"
  by (induction xs) (auto simp: set_insort_edge)

lemma sorted_insort_edge:
  assumes "is_fin (snd (snd e))" "\<And>x. x \<in> set xs \<Longrightarrow> is_fin (snd (snd x))"
  shows "sorted (map wv xs) \<Longrightarrow> sorted (map wv (insort_edge e xs))"
  using assms(2)
proof (induction xs)
  case Nil
  then show ?case by simp
next
  case (Cons x xs)
  have fx: "is_fin (snd (snd x))" using Cons.prems(2) by simp
  show ?case
  proof (cases "edge_before x e")
    case True
    have "sorted (map wv (insort_edge e xs))" using Cons by simp
    moreover have "wv x \<le> wv e" by (rule edge_before_wv(1)[OF fx assms(1) True])
    ultimately show ?thesis using True Cons.prems(1) by (auto simp: set_insort_edge)
  next
    case False
    have "wv e \<le> wv x" by (rule edge_before_wv(2)[OF fx assms(1) False])
    then show ?thesis using False Cons.prems(1) by auto
  qed
qed

lemma length_sort_edges: "length (sort_edges es) = length es"
  unfolding sort_edges_def by (induction es) (simp_all add: length_insort_edge)

lemma distinct_sort_edges: "distinct es \<Longrightarrow> distinct (sort_edges es)"
  unfolding sort_edges_def
  by (induction es) (simp_all add: distinct_insort_edge set_sort_edges[unfolded sort_edges_def])

lemma sorted_sort_edges:
  "(\<And>x. x \<in> set es \<Longrightarrow> is_fin (snd (snd x))) \<Longrightarrow> sorted (map wv (sort_edges es))"
proof (induction es)
  case Nil
  then show ?case by (simp add: sort_edges_def)
next
  case (Cons e es)
  have s: "sorted (map wv (sort_edges es))" using Cons by simp
  have "sorted (map wv (insort_edge e (sort_edges es)))"
    by (rule sorted_insort_edge[OF _ _ s]) (use Cons.prems in \<open>simp_all add: set_sort_edges\<close>)
  then show ?case by (simp add: sort_edges_def)
qed

lemma sorted_kruskal_edges:
  "sorted (map wv es) \<Longrightarrow> sorted (map wv (kruskal_edges lab es))"
proof (induction lab es rule: kruskal_edges.induct)
  case (1 lab)
  then show ?case by simp
next
  case (2 lab u v w es)
  then show ?case using set_kruskal_edges[of "uf_union lab u v" es] by auto
qed

lemma distinct_kruskal_edges: "distinct es \<Longrightarrow> distinct (kruskal_edges lab es)"
proof (induction lab es rule: kruskal_edges.induct)
  case (1 lab)
  then show ?case by simp
next
  case (2 lab u v w es)
  then show ?case using set_kruskal_edges[of "uf_union lab u v" es] by auto
qed

lemma card_image_refines:
  assumes "finite V" and "\<And>x y. x \<in> V \<Longrightarrow> y \<in> V \<Longrightarrow> f x = f y \<Longrightarrow> g x = g y"
  shows "card (g ` V) \<le> card (f ` V)"
proof -
  define h where "h = (\<lambda>y. g (SOME x. x \<in> V \<and> f x = y))"
  have gh: "g x = h (f x)" if "x \<in> V" for x
  proof -
    define z where "z = (SOME z. z \<in> V \<and> f z = f x)"
    have "z \<in> V \<and> f z = f x"
      unfolding z_def by (rule someI[of "\<lambda>z. z \<in> V \<and> f z = f x" x]) (simp add: that)
    then have "g z = g x" using assms(2)[of z x] that by simp
    then show ?thesis by (simp add: h_def z_def)
  qed
  have "g ` V = (\<lambda>x. h (f x)) ` V" by (rule image_cong[OF refl]) (rule gh)
  also have "\<dots> = h ` (f ` V)" by (simp add: image_image)
  finally have "g ` V = h ` (f ` V)" .
  then show ?thesis using assms(1) by (simp add: card_image_le)
qed

lemma forest_count:
  assumes "finite T" "acyclic_edges T" "\<And>u v w. (u, v, w) \<in> T \<Longrightarrow> u < n \<and> v < n"
  shows "\<exists>lab. uf_inv lab T \<and> card (lab ` {..<n}) + card T = n"
proof -
  from finite_distinct_list[OF assms(1)] obtain ts where ts: "set ts = T" "distinct ts" by blast
  have k: "kruskal_edges uf_init ts = ts"
    by (rule kruskal_edges_forest[OF uf_inv_init]) (simp_all add: ts assms(2))
  have "uf_inv (kruskal_uf uf_init ts) ({} \<union> set (kruskal_edges uf_init ts))"
    by (rule kruskal_uf_inv[OF uf_inv_init])
  then have i: "uf_inv (kruskal_uf uf_init ts) T" by (simp add: k ts)
  have r: "u < n \<and> v < n" if "(u, v, w) \<in> set ts" for u v w
    using that assms(3)[of u v w] by (simp add: ts(1))
  have c: "card (uf_init ` {..<n}) =
      card (kruskal_uf uf_init ts ` {..<n}) + length (kruskal_edges uf_init ts)"
    by (rule kruskal_count) (rule r)
  have u: "uf_init ` {..<n} = {..<n}" by (simp add: uf_init_def)
  have l: "length ts = card T" using distinct_card[OF ts(2)] by (simp add: ts(1))
  have "card (kruskal_uf uf_init ts ` {..<n}) + card T = n"
    using c unfolding u k l by simp
  then show ?thesis using i by (intro exI[of _ "kruskal_uf uf_init ts"]) simp
qed

lemma connected_labels_card:
  assumes "uf_inv lab T" "\<And>u v. u < n \<Longrightarrow> v < n \<Longrightarrow> connected_in T u v" "0 < n"
  shows "card (lab ` {..<n}) = 1"
proof -
  have c: "connected_in T x 0 = (lab x = lab 0)" for x
    using assms(1) unfolding uf_inv_def by blast
  have "lab ` {..<n} = {lab 0}"
  proof (intro equalityI subsetI)
    fix y assume "y \<in> lab ` {..<n}"
    then obtain x where x: "x < n" "y = lab x" by blast
    have "connected_in T x 0" by (rule assms(2)[OF x(1) assms(3)])
    then have "y = lab 0" unfolding c x(2) .
    then show "y \<in> {lab 0}" by (simp only: singleton_iff)
  next
    fix y assume "y \<in> {lab 0}"
    then have y: "y = lab 0" by (simp only: singleton_iff)
    have "0 \<in> {..<n}" using assms(3) by (simp only: lessThan_iff)
    then show "y \<in> lab ` {..<n}" unfolding y by (rule imageI)
  qed
  then have "card (lab ` {..<n}) = card {lab 0}" by (rule arg_cong)
  then show ?thesis by simp
qed

lemma spanning_tree_card:
  assumes "spanning_tree n E T" "finite E" "\<And>u v w. (u, v, w) \<in> E \<Longrightarrow> u < n \<and> v < n" "0 < n"
  shows "card T = n - 1"
proof -
  have T1: "T \<subseteq> E" and T2: "acyclic_edges T"
    and T3: "\<forall>u<n. \<forall>v<n. connected_in T u v"
    using assms(1) by (simp_all add: spanning_tree_def)
  have fin: "finite T" by (rule finite_subset[OF T1 assms(2)])
  have r: "u < n \<and> v < n" if "(u, v, w) \<in> T" for u v w
    by (rule assms(3)[of u v w]) (use that T1 in blast)
  have "\<exists>lab. uf_inv lab T \<and> card (lab ` {..<n}) + card T = n"
    by (rule forest_count[OF fin T2 r])
  then obtain lab where lab: "uf_inv lab T" "card (lab ` {..<n}) + card T = n"
    by (elim exE conjE)
  have "card (lab ` {..<n}) = 1"
    by (rule connected_labels_card[OF lab(1) _ assms(4)]) (simp add: T3)
  then show ?thesis using lab(2) by simp
qed

lemma sorted_dominate_nth:
  fixes xs ys :: "real list"
  assumes "sorted xs" "sorted ys" "length xs = length ys"
    and cnt: "\<And>t. length (filter (\<lambda>y. y \<le> t) ys) \<le> length (filter (\<lambda>x. x \<le> t) xs)"
    and i: "i < length xs"
  shows "xs ! i \<le> ys ! i"
proof (rule ccontr)
  assume "\<not> xs ! i \<le> ys ! i"
  then have lt: "ys ! i < xs ! i" by simp
  define t where "t = ys ! i"
  have iy: "i < length ys" using i assms(3) by simp
  have a: "filter (\<lambda>y. y \<le> t) (take (Suc i) ys) = take (Suc i) ys"
  proof (rule filter_True, rule ballI)
    fix y assume "y \<in> set (take (Suc i) ys)"
    then obtain j where j: "j < Suc i" "y = ys ! j"
      using iy by (auto simp: in_set_conv_nth)
    then have "ys ! j \<le> ys ! i" using assms(2) iy by (intro sorted_nth_mono) simp_all
    then show "y \<le> t" by (simp add: j t_def)
  qed
  have "length (filter (\<lambda>y. y \<le> t) ys) =
        length (filter (\<lambda>y. y \<le> t) (take (Suc i) ys)) + length (filter (\<lambda>y. y \<le> t) (drop (Suc i) ys))"
    by (metis append_take_drop_id filter_append length_append)
  then have ge: "Suc i \<le> length (filter (\<lambda>y. y \<le> t) ys)"
    using iy by (simp add: a)
  have b: "filter (\<lambda>x. x \<le> t) (drop i xs) = []"
  proof (rule filter_False, rule ballI)
    fix x assume "x \<in> set (drop i xs)"
    then obtain j where j: "j < length xs - i" "x = xs ! (i + j)"
      by (auto simp: in_set_conv_nth)
    then have "xs ! i \<le> xs ! (i + j)" using assms(1) by (intro sorted_nth_mono) simp_all
    then show "\<not> x \<le> t" using lt by (simp add: j t_def)
  qed
  have "length (filter (\<lambda>x. x \<le> t) xs) =
        length (filter (\<lambda>x. x \<le> t) (take i xs)) + length (filter (\<lambda>x. x \<le> t) (drop i xs))"
    by (metis append_take_drop_id filter_append length_append)
  also have "\<dots> \<le> i"
    using length_filter_le[of "\<lambda>x. x \<le> t" "take i xs"] by (simp add: b)
  finally have "length (filter (\<lambda>x. x \<le> t) xs) \<le> i" .
  with ge cnt[of t] show False by simp
qed

lemma sorted_dominate_sum:
  fixes xs ys :: "real list"
  assumes "sorted xs" "sorted ys" "length xs = length ys"
    and "\<And>t. length (filter (\<lambda>y. y \<le> t) ys) \<le> length (filter (\<lambda>x. x \<le> t) xs)"
  shows "sum_list xs \<le> sum_list ys"
proof (rule sum_list_mono2[OF assms(3)], rule impI)
  fix i assume "i < length xs"
  then show "xs ! i \<le> ys ! i" by (rule sorted_dominate_nth[OF assms])
qed

lemma sorted_split:
  "sorted (map wv es) \<Longrightarrow>
     \<exists>xs ys. es = xs @ ys \<and> (\<forall>e \<in> set xs. wv e \<le> t) \<and> (\<forall>e \<in> set ys. t < wv e)"
proof (induction es)
  case Nil
  then show ?case by simp
next
  case (Cons e es)
  show ?case
  proof (cases "wv e \<le> t")
    case True
    from Cons obtain xs ys where s: "es = xs @ ys" "\<forall>e \<in> set xs. wv e \<le> t" "\<forall>e \<in> set ys. t < wv e"
      by auto
    have "e # es = (e # xs) @ ys \<and> (\<forall>x \<in> set (e # xs). wv x \<le> t) \<and> (\<forall>x \<in> set ys. t < wv x)"
      using s True by simp
    then show ?thesis by blast
  next
    case False
    have "\<forall>x \<in> set (e # es). t < wv x" using Cons.prems False by auto
    then have "e # es = [] @ (e # es) \<and> (\<forall>x \<in> set []. wv x \<le> t) \<and> (\<forall>x \<in> set (e # es). t < wv x)"
      by simp
    then show ?thesis by blast
  qed
qed

lemma kruskal_threshold:
  assumes srt: "sorted (map wv es)"
    and rng: "\<And>u v w. (u, v, w) \<in> set es \<Longrightarrow> u < n \<and> v < n"
    and sub: "T \<subseteq> set es" and acy: "acyclic_edges T"
  shows "card {e \<in> T. wv e \<le> t} \<le> length (filter (\<lambda>e. wv e \<le> t) (kruskal_edges uf_init es))"
proof -
  from sorted_split[OF srt, of t] obtain xs ys where
    es: "es = xs @ ys" and lo: "\<forall>e \<in> set xs. wv e \<le> t" and hi: "\<forall>e \<in> set ys. t < wv e"
    by blast
  let ?K1 = "kruskal_edges uf_init xs"
  let ?labK = "kruskal_uf uf_init xs"
  let ?K2 = "kruskal_edges ?labK ys"
  let ?Tt = "{e \<in> T. wv e \<le> t}"
  have K: "kruskal_edges uf_init es = ?K1 @ ?K2"
    unfolding es by (rule kruskal_edges_append)
  have f1: "filter (\<lambda>e. wv e \<le> t) ?K1 = ?K1"
    using set_kruskal_edges[of uf_init xs] lo by (intro filter_True) blast
  have f2: "filter (\<lambda>e. wv e \<le> t) ?K2 = []"
  proof (rule filter_False, rule ballI)
    fix e assume "e \<in> set ?K2"
    then have "e \<in> set ys" using set_kruskal_edges[of ?labK ys] by blast
    then show "\<not> wv e \<le> t" using hi by (simp add: not_le)
  qed
  have len: "length (filter (\<lambda>e. wv e \<le> t) (kruskal_edges uf_init es)) = length ?K1"
    by (simp add: K f1 f2)
  have Tt_xs: "?Tt \<subseteq> set xs"
  proof
    fix e assume e: "e \<in> ?Tt"
    then have "e \<in> set xs \<or> e \<in> set ys" using sub by (auto simp: es)
    moreover have "e \<notin> set ys" using e hi by (auto simp: not_less)
    ultimately show "e \<in> set xs" by simp
  qed
  have rx: "u < n \<and> v < n" if "(u, v, w) \<in> set xs" for u v w
    by (rule rng[of u v w]) (simp add: es that)
  have invK: "uf_inv ?labK (set ?K1)"
    using kruskal_uf_inv[OF uf_inv_init, of xs] by simp
  have cK: "card (?labK ` {..<n}) + length ?K1 = n"
  proof -
    have "card (uf_init ` {..<n}) = card (?labK ` {..<n}) + length ?K1"
      by (rule kruskal_count) (rule rx)
    moreover have "uf_init ` {..<n} = {..<n}" by (simp add: uf_init_def)
    ultimately show ?thesis by simp
  qed
  have finT: "finite ?Tt" by (rule finite_subset[OF Tt_xs]) simp
  have acyT: "acyclic_edges ?Tt" by (rule acyclic_edges_subset[OF acy]) blast
  have rT: "u < n \<and> v < n" if "(u, v, w) \<in> ?Tt" for u v w
    by (rule rx[of u v w]) (use that Tt_xs in blast)
  have "\<exists>lab. uf_inv lab ?Tt \<and> card (lab ` {..<n}) + card ?Tt = n"
    by (rule forest_count[OF finT acyT rT])
  then obtain labT where invT: "uf_inv labT ?Tt" and cT: "card (labT ` {..<n}) + card ?Tt = n"
    by (elim exE conjE)
  have via: "connected_in (set ?K1) a b" if "connected_in ?Tt a b" for a b
  proof (rule connected_via[OF _ that])
    fix u v w assume "(u, v, w) \<in> ?Tt"
    then have "(u, v, w) \<in> set xs" using Tt_xs by blast
    from kruskal_edges_connect[OF uf_inv_init this] show "connected_in (set ?K1) u v" by simp
  qed
  have "card (?labK ` {..<n}) \<le> card (labT ` {..<n})"
  proof (rule card_image_refines)
    show "finite {..<n}" by simp
    fix x y assume "labT x = labT y"
    then have "connected_in ?Tt x y" using invT unfolding uf_inv_def by blast
    then have "connected_in (set ?K1) x y" by (rule via)
    then show "?labK x = ?labK y" using invK unfolding uf_inv_def by blast
  qed
  then have "card ?Tt \<le> length ?K1" using cK cT by linarith
  then show ?thesis by (simp only: len)
qed

lemma kruskal_minimal:
  assumes srt: "sorted (map wv es)" and dist: "distinct es"
    and rng: "\<And>u v w. (u, v, w) \<in> set es \<Longrightarrow> u < n \<and> v < n"
    and sub: "T \<subseteq> set es" and acy: "acyclic_edges T"
    and card: "card T = length (kruskal_edges uf_init es)"
  shows "total_weight (set (kruskal_edges uf_init es)) \<le> total_weight T"
proof -
  let ?K = "kruskal_edges uf_init es"
  have finT: "finite T" by (rule finite_subset[OF sub]) simp
  from finite_distinct_list[OF finT] obtain ts where ts: "set ts = T" "distinct ts" by blast
  define tss where "tss = sort_key wv ts"
  have tss: "set tss = T" "distinct tss" "sorted (map wv tss)" "length tss = card T"
    using ts distinct_card[OF ts(2)] by (simp_all add: tss_def)
  have dK: "distinct ?K" by (rule distinct_kruskal_edges[OF dist])
  have sK: "sorted (map wv ?K)" by (rule sorted_kruskal_edges[OF srt])
  have cnt: "length (filter (\<lambda>y. y \<le> t) (map wv tss)) \<le> length (filter (\<lambda>x. x \<le> t) (map wv ?K))" for t
  proof -
    have "distinct (filter (\<lambda>e. wv e \<le> t) tss)" using tss(2) by simp
    then have "length (filter (\<lambda>e. wv e \<le> t) tss) = card (set (filter (\<lambda>e. wv e \<le> t) tss))"
      by (rule distinct_card[symmetric])
    also have "set (filter (\<lambda>e. wv e \<le> t) tss) = {e \<in> T. wv e \<le> t}"
      by (simp add: tss(1))
    finally have "length (filter (\<lambda>e. wv e \<le> t) tss) \<le> length (filter (\<lambda>e. wv e \<le> t) ?K)"
      using kruskal_threshold[where t = t, OF srt rng sub acy] by simp
    then show ?thesis by (simp add: filter_map comp_def)
  qed
  have "sum_list (map wv ?K) \<le> sum_list (map wv tss)"
    by (rule sorted_dominate_sum[OF sK tss(3) _ cnt]) (simp add: tss(4) card)
  moreover have "sum_list (map wv ?K) = total_weight (set ?K)"
    unfolding total_weight_def by (rule sum_list_distinct_conv_sum_set[OF dK])
  moreover have "sum_list (map wv tss) = total_weight T"
    unfolding total_weight_def using sum_list_distinct_conv_sum_set[OF tss(2), of wv] by (simp add: tss(1))
  ultimately show ?thesis by simp
qed

lemma kruskal_spanning:
  assumes fin: "\<And>e. e \<in> set es \<Longrightarrow> is_fin (snd (snd e))"
    and dist: "distinct es"
    and rng: "\<And>u v w. (u, v, w) \<in> set es \<Longrightarrow> u < n \<and> v < n"
    and complete: "\<And>u v. u < v \<Longrightarrow> v < n \<Longrightarrow> \<exists>w. (u, v, w) \<in> set es"
  shows "spanning_tree n (set es) (set (kruskal_edges uf_init (sort_edges es)))"
    and "length (kruskal_edges uf_init (sort_edges es)) = n - 1"
    and "distinct (kruskal_edges uf_init (sort_edges es))"
    and "spanning_tree n (set es) T \<Longrightarrow>
           total_weight (set (kruskal_edges uf_init (sort_edges es))) \<le> total_weight T"
proof -
  let ?ses = "sort_edges es"
  let ?K = "kruskal_edges uf_init ?ses"
  have srt: "sorted (map wv ?ses)" by (rule sorted_sort_edges) (rule fin)
  have dses: "distinct ?ses" by (rule distinct_sort_edges[OF dist])
  have rs: "u < n \<and> v < n" if "(u, v, w) \<in> set ?ses" for u v w
    by (rule rng[of u v w]) (use that in \<open>simp add: set_sort_edges\<close>)
  have sub: "set ?K \<subseteq> set es"
    using set_kruskal_edges[of uf_init ?ses] by (simp add: set_sort_edges)
  have acy: "acyclic_edges (set ?K)"
    using kruskal_edges_acyclic[OF uf_inv_init acyclic_edges_empty, of ?ses] by simp
  have lt: "connected_in (set ?K) u v" if "u < v" "v < n" for u v
  proof -
    from complete[OF that] obtain w where "(u, v, w) \<in> set ?ses" by (auto simp: set_sort_edges)
    from kruskal_edges_connect[OF uf_inv_init this] show ?thesis by simp
  qed
  have con: "connected_in (set ?K) u v" if "u < n" "v < n" for u v
  proof -
    consider "u < v" | "u = v" | "v < u" by linarith
    then show ?thesis
    proof cases
      case 1
      then show ?thesis using lt that by simp
    next
      case 2
      then show ?thesis by simp
    next
      case 3
      show ?thesis by (rule connected_sym[OF lt[OF 3 that(1)]])
    qed
  qed
  show st: "spanning_tree n (set es) (set ?K)"
    unfolding spanning_tree_def using sub acy con by simp
  show dK: "distinct ?K" by (rule distinct_kruskal_edges[OF dses])
  have inv: "uf_inv (kruskal_uf uf_init ?ses) (set ?K)"
    using kruskal_uf_inv[OF uf_inv_init, of ?ses] by simp
  have cnt: "card (kruskal_uf uf_init ?ses ` {..<n}) + length ?K = n"
  proof -
    have "card (uf_init ` {..<n}) = card (kruskal_uf uf_init ?ses ` {..<n}) + length ?K"
      by (rule kruskal_count) (rule rs)
    moreover have "uf_init ` {..<n} = {..<n}" by (simp add: uf_init_def)
    ultimately show ?thesis by simp
  qed
  show len: "length ?K = n - 1"
  proof (cases "n = 0")
    case True
    then show ?thesis using cnt by simp
  next
    case False
    then have "0 < n" by simp
    from connected_labels_card[OF inv con this] cnt show ?thesis by simp
  qed
  assume T: "spanning_tree n (set es) T"
  have T1: "T \<subseteq> set ?ses" and T2: "acyclic_edges T"
    using T by (simp_all add: spanning_tree_def set_sort_edges)
  have cT: "card T = length ?K"
  proof (cases "n = 0")
    case True
    have "set es = {}"
    proof (rule ccontr)
      assume "set es \<noteq> {}"
      then obtain u v w where "(u, v, w) \<in> set es" by (metis all_not_in_conv prod_cases3)
      from rng[OF this] True show False by simp
    qed
    then have "T = {}" using T1 by (simp add: set_sort_edges)
    then show ?thesis using len True by simp
  next
    case False
    then have "0 < n" by simp
    from spanning_tree_card[OF T _ rng this] len show ?thesis by simp
  qed
  show "total_weight (set ?K) \<le> total_weight T"
    by (rule kruskal_minimal[OF srt dses rs T1 T2 cT])
qed


text \<open>
  Claim C6. For a graph that the builder has produced over \<open>n\<close> located points (finite
  coordinates), the spanning tree engine returns a graph with the same nodes and exactly
  \<open>n - 1\<close> edges (none for 0 or 1 nodes), all of them edges of the input graph, that is
  acyclic and connects all nodes, and whose total weight is no greater than that of any
  spanning tree of the input graph.
\<close>

theorem build_mst_graph_minimum_spanning_tree:
  assumes "\<forall>r \<in> set coords. is_fin (lat r) \<and> is_fin (lon r)"
    and "build_geodesic_graph rnd coords = Inr G"
  shows "\<exists>mst. build_mst_graph G = Inr mst \<and>
     g_nodes mst = g_nodes G \<and> g_nodes mst = [0..<length coords] \<and>
     length (g_edges mst) = length coords - 1 \<and>
     distinct (g_edges mst) \<and>
     set (g_edges mst) \<subseteq> set (g_edges G) \<and>
     acyclic_edges (set (g_edges mst)) \<and>
     (\<forall>u<length coords. \<forall>v<length coords. connected_in (set (g_edges mst)) u v) \<and>
     (\<forall>T. spanning_tree (length coords) (set (g_edges G)) T \<longrightarrow>
          total_weight (set (g_edges mst)) \<le> total_weight T) \<and>
     (length coords \<le> 1 \<longrightarrow> g_edges mst = [])"
proof -
  define n where "n = length coords"
  define es where "es = g_edges G"
  define K where "K = kruskal_edges uf_init (sort_edges es)"
  define mst where "mst = \<lparr>g_nodes = g_nodes G, g_edges = K\<rparr>"
  note G = assms(2)
  have nodes: "g_nodes G = [0..<n]"
    unfolding n_def by (rule build_geodesic_graph_edges(1)[OF G])
  have ends: "map (\<lambda>(i, j, w). (i, j)) es = idx_pairs n"
    unfolding n_def es_def by (rule build_geodesic_graph_edges(2)[OF G])
  have fin3: "is_fin w" if "(i, j, w) \<in> set es" for i j w
    using build_geodesic_graph_fin[OF G, of i j w] assms(1) that by (simp add: es_def)
  have fin: "is_fin (snd (snd e))" if "e \<in> set es" for e
    using fin3[of "fst e" "fst (snd e)" "snd (snd e)"] that by simp
  have nonan: "filter (\<lambda>(u, v, w). isna w) es = []"
  proof (rule filter_False, rule ballI)
    fix e assume "e \<in> set es"
    from fin[OF this] show "\<not> (case e of (u, v, w) \<Rightarrow> isna w)"
      by (auto simp: isna_def)
  qed
  have mst: "build_mst_graph G = Inr mst"
    using nonan by (simp add: build_mst_graph_def minimum_spanning_tree_def mst_def K_def es_def)
  have "distinct (map (\<lambda>(i, j, w). (i, j)) es)"
    unfolding ends by (rule distinct_idx_pairs)
  then have dist: "distinct es" by (simp add: distinct_map)
  have rng: "u < n \<and> v < n" if "(u, v, w) \<in> set es" for u v w
    using build_geodesic_graph_edges(3)[OF G, of u v w] that by (simp add: es_def n_def)
  have complete: "\<exists>w. (u, v, w) \<in> set es" if "u < v" "v < n" for u v
  proof -
    have "(u, v) \<in> set (idx_pairs n)" using that by (simp add: set_idx_pairs)
    then have "(u, v) \<in> set (map (\<lambda>(i, j, w). (i, j)) es)" by (simp only: ends)
    then show ?thesis by auto
  qed
  have st: "spanning_tree n (set es) (set K)"
    unfolding K_def by (rule kruskal_spanning(1)[OF fin dist rng complete])
  have len: "length K = n - 1"
    unfolding K_def by (rule kruskal_spanning(2)[OF fin dist rng complete])
  have dK: "distinct K"
    unfolding K_def by (rule kruskal_spanning(3)[OF fin dist rng complete])
  have minimal: "total_weight (set K) \<le> total_weight T" if "spanning_tree n (set es) T" for T
    unfolding K_def by (rule kruskal_spanning(4)[OF fin dist rng complete that])
  have small: "K = []" if "n \<le> 1" using len that by simp
  have sub: "set K \<subseteq> set es" and acy: "acyclic_edges (set K)"
    and con: "\<forall>u<n. \<forall>v<n. connected_in (set K) u v"
    using st by (simp_all add: spanning_tree_def)
  have "build_mst_graph G = Inr mst \<and>
     g_nodes mst = g_nodes G \<and> g_nodes mst = [0..<n] \<and>
     length (g_edges mst) = n - 1 \<and> distinct (g_edges mst) \<and>
     set (g_edges mst) \<subseteq> set (g_edges G) \<and> acyclic_edges (set (g_edges mst)) \<and>
     (\<forall>u<n. \<forall>v<n. connected_in (set (g_edges mst)) u v) \<and>
     (\<forall>T. spanning_tree n (set (g_edges G)) T \<longrightarrow>
          total_weight (set (g_edges mst)) \<le> total_weight T) \<and>
     (n \<le> 1 \<longrightarrow> g_edges mst = [])"
    using mst len dK sub acy con minimal small nodes by (simp add: mst_def es_def)
  then show ?thesis unfolding n_def by blast
qed

theorem build_mst_graph_minimum_spanning_tree_witness:
  "build_geodesic_graph round64 demo_coords = Inr demo_graph \<and>
   (\<exists>mst. build_mst_graph demo_graph = Inr mst \<and> g_nodes mst = [0, 1] \<and>
     length (g_edges mst) = 1 \<and> connected_in (set (g_edges mst)) 0 1 \<and>
     acyclic_edges (set (g_edges mst)))"
proof -
  have f: "\<forall>r \<in> set demo_coords. is_fin (lat r) \<and> is_fin (lon r)"
    by (simp add: demo_coords_def)
  have l: "length demo_coords = 2" by (simp add: demo_coords_def)
  from build_mst_graph_minimum_spanning_tree[OF f demo_graph] demo_graph
  show ?thesis unfolding l by (auto simp: demo_graph_def)
qed

end
